theory Spec2Isabelle
  imports Main "HOL-Library.Sublist"
begin

section \<open>Strings\<close>

text \<open>
  A JavaScript string is a sequence of UTF-16 code units. A code unit is modelled as a
  natural number, so that every input string of the program is a value of the model
  (numbers above 65535 are no code units; the program treats them like any other
  character outside its alphabet).
\<close>

type_synonym codeunit = nat
type_synonym jsstring = "codeunit list"

definition js :: "string \<Rightarrow> jsstring" where
  "js s = map of_char s"

abbreviation LPAREN :: codeunit where "LPAREN \<equiv> 40"
abbreviation RPAREN :: codeunit where "RPAREN \<equiv> 41"
abbreviation STAR :: codeunit where "STAR \<equiv> 42"
abbreviation PLUS :: codeunit where "PLUS \<equiv> 43"
abbreviation MINUS :: codeunit where "MINUS \<equiv> 45"
abbreviation DOT :: codeunit where "DOT \<equiv> 46"
abbreviation SLASH :: codeunit where "SLASH \<equiv> 47"
abbreviation ZERO :: codeunit where "ZERO \<equiv> 48"

text \<open>The regular expression class \<^verbatim>\<open>\d\<close>: the ten ASCII digits.\<close>

definition is_digit :: "codeunit \<Rightarrow> bool" where
  "is_digit c \<longleftrightarrow> 48 \<le> c \<and> c \<le> 57"

text \<open>
  The regular expression class \<^verbatim>\<open>\s\<close> (ECMAScript WhiteSpace and LineTerminator):
  TAB, LF, VT, FF, CR, SP, NBSP, U+1680, U+2000 to U+200A, LS, PS, U+202F, U+205F,
  U+3000 and the byte order mark U+FEFF.
\<close>

definition is_space :: "codeunit \<Rightarrow> bool" where
  "is_space c \<longleftrightarrow> (9 \<le> c \<and> c \<le> 13) \<or> c = 32 \<or> c = 160 \<or> c = 5760 \<or> (8192 \<le> c \<and> c \<le> 8202)
     \<or> c = 8232 \<or> c = 8233 \<or> c = 8239 \<or> c = 8287 \<or> c = 12288 \<or> c = 65279"

text \<open>The class \<^verbatim>\<open>[+\-*/()]\<close> of the tokenizer.\<close>

definition is_opchar :: "codeunit \<Rightarrow> bool" where
  "is_opchar c \<longleftrightarrow> c = PLUS \<or> c = MINUS \<or> c = STAR \<or> c = SLASH \<or> c = LPAREN \<or> c = RPAREN"

text \<open>The class \<^verbatim>\<open>[0-9+\-*/.()]\<close> of the validation.\<close>

definition is_allowed :: "codeunit \<Rightarrow> bool" where
  "is_allowed c \<longleftrightarrow> is_digit c \<or> c = DOT \<or> is_opchar c"

section \<open>Numbers\<close>

text \<open>
  A JavaScript number is an IEEE 754 binary64 value. \<open>Fin m e\<close> is the finite value
  \<open>m * 2 ^ e\<close>, kept in lowest terms: \<open>m\<close> is odd, or the number is \<open>Fin 0 0\<close>, which is
  positive zero. \<open>NegZero\<close> is negative zero.
\<close>

datatype jsnum = NaN | PosInf | NegInf | NegZero | Fin int int

fun bit_length :: "nat \<Rightarrow> nat" where
  "bit_length n = (if n = 0 then 0 else 1 + bit_length (n div 2))"

declare bit_length.simps [simp del]

text \<open>
  \<open>floor_log2 a b\<close> is the integer part of the binary logarithm of \<open>a / b\<close>, which is the
  difference \<open>d\<close> of the bit lengths or one less.
\<close>

definition log2_between :: "nat \<Rightarrow> nat \<Rightarrow> int \<Rightarrow> int" where
  "log2_between a b d = (if b * 2 ^ nat d \<le> a * 2 ^ nat (- d) then d else d - 1)"

definition floor_log2 :: "nat \<Rightarrow> nat \<Rightarrow> int" where
  "floor_log2 a b = log2_between a b (int (bit_length a) - int (bit_length b))"

text \<open>The integer nearest to \<open>a / b\<close>, the even one of two that are equally near.\<close>

definition nearest_even :: "nat \<Rightarrow> nat \<Rightarrow> nat" where
  "nearest_even a b =
     (if 2 * (a mod b) < b then a div b
      else if b < 2 * (a mod b) then a div b + 1
      else if even (a div b) then a div b
      else a div b + 1)"

fun odd_part :: "nat \<Rightarrow> int \<Rightarrow> nat \<times> int" where
  "odd_part n u = (if n \<noteq> 0 \<and> even n then odd_part (n div 2) (u + 1) else (n, u))"

declare odd_part.simps [simp del]

text \<open>The number \<open>n * 2 ^ u\<close> with its sign, infinite from \<open>2 ^ 1024\<close> on.\<close>

definition dyadic :: "bool \<Rightarrow> nat \<Rightarrow> int \<Rightarrow> jsnum" where
  "dyadic neg n u =
     (if n = 0 then (if neg then NegZero else Fin 0 0)
      else if 0 \<le> u \<and> 2 ^ 1024 \<le> n * 2 ^ nat u then (if neg then NegInf else PosInf)
      else (case odd_part n u of (m, e) \<Rightarrow> Fin (if neg then - int m else int m) e))"

text \<open>The real \<open>(a / b) * 2 ^ ex\<close> rounded to a multiple of \<open>2 ^ u\<close>.\<close>

definition round_at :: "bool \<Rightarrow> nat \<Rightarrow> nat \<Rightarrow> int \<Rightarrow> int \<Rightarrow> jsnum" where
  "round_at neg a b ex u =
     dyadic neg (nearest_even (a * 2 ^ nat (ex - u)) (b * 2 ^ nat (u - ex))) u"

text \<open>
  The Number value of the real \<open>(a / b) * 2 ^ ex\<close> with its sign: the nearest binary64
  value, ties to the even significand. The significand has 53 bits, and the unit in
  the last place is never below \<open>2 ^ - 1074\<close> (subnormal numbers).
\<close>

definition number_value :: "bool \<Rightarrow> nat \<Rightarrow> nat \<Rightarrow> int \<Rightarrow> jsnum" where
  "number_value neg a b ex =
     (if a = 0 then (if neg then NegZero else Fin 0 0)
      else round_at neg a b ex (max (floor_log2 a b + ex - 52) (- 1074)))"

text \<open>The Number value of the integer \<open>s\<close> times \<open>2 ^ e\<close>; an exact zero is positive.\<close>

definition number_of_int :: "int \<Rightarrow> int \<Rightarrow> jsnum" where
  "number_of_int s e = (if s = 0 then Fin 0 0 else number_value (s < 0) (nat \<bar>s\<bar>) 1 e)"

fun js_neg :: "jsnum \<Rightarrow> jsnum" where
  "js_neg NaN = NaN"
| "js_neg PosInf = NegInf"
| "js_neg NegInf = PosInf"
| "js_neg NegZero = Fin 0 0"
| "js_neg (Fin m e) = (if m = 0 then NegZero else Fin (- m) e)"

text \<open>The operator \<^verbatim>\<open>a + b\<close> on numbers.\<close>

fun js_add :: "jsnum \<Rightarrow> jsnum \<Rightarrow> jsnum" where
  "js_add NaN _ = NaN"
| "js_add _ NaN = NaN"
| "js_add PosInf NegInf = NaN"
| "js_add NegInf PosInf = NaN"
| "js_add PosInf _ = PosInf"
| "js_add NegInf _ = NegInf"
| "js_add _ PosInf = PosInf"
| "js_add _ NegInf = NegInf"
| "js_add NegZero y = y"
| "js_add x NegZero = x"
| "js_add (Fin m1 e1) (Fin m2 e2) =
     number_of_int (m1 * 2 ^ nat (e1 - min e1 e2) + m2 * 2 ^ nat (e2 - min e1 e2)) (min e1 e2)"

text \<open>The operator \<^verbatim>\<open>a - b\<close> on numbers.\<close>

definition js_sub :: "jsnum \<Rightarrow> jsnum \<Rightarrow> jsnum" where
  "js_sub a b = js_add a (js_neg b)"

definition is_negative :: "jsnum \<Rightarrow> bool" where
  "is_negative x = (case x of NegInf \<Rightarrow> True | NegZero \<Rightarrow> True | Fin m e \<Rightarrow> m < 0 | _ \<Rightarrow> False)"

text \<open>\<^verbatim>\<open>x === 0\<close>: true for the zero of either sign.\<close>

definition is_zero :: "jsnum \<Rightarrow> bool" where
  "is_zero x = (case x of NegZero \<Rightarrow> True | Fin m e \<Rightarrow> m = 0 | _ \<Rightarrow> False)"

definition is_infinite :: "jsnum \<Rightarrow> bool" where
  "is_infinite x \<longleftrightarrow> x = PosInf \<or> x = NegInf"

text \<open>The operator \<^verbatim>\<open>a * b\<close> on numbers.\<close>

definition js_mul :: "jsnum \<Rightarrow> jsnum \<Rightarrow> jsnum" where
  "js_mul x y =
     (let neg = (is_negative x \<noteq> is_negative y) in
      if x = NaN \<or> y = NaN then NaN
      else if is_infinite x \<or> is_infinite y then
        (if is_zero x \<or> is_zero y then NaN else if neg then NegInf else PosInf)
      else if is_zero x \<or> is_zero y then (if neg then NegZero else Fin 0 0)
      else (case (x, y) of
              (Fin m1 e1, Fin m2 e2) \<Rightarrow> number_value neg (nat \<bar>m1 * m2\<bar>) 1 (e1 + e2)
            | _ \<Rightarrow> NaN))"

text \<open>The operator \<^verbatim>\<open>a / b\<close> on numbers.\<close>

definition js_div :: "jsnum \<Rightarrow> jsnum \<Rightarrow> jsnum" where
  "js_div x y =
     (let neg = (is_negative x \<noteq> is_negative y) in
      if x = NaN \<or> y = NaN then NaN
      else if is_infinite x then (if is_infinite y then NaN else if neg then NegInf else PosInf)
      else if is_infinite y then (if neg then NegZero else Fin 0 0)
      else if is_zero y then (if is_zero x then NaN else if neg then NegInf else PosInf)
      else if is_zero x then (if neg then NegZero else Fin 0 0)
      else (case (x, y) of
              (Fin m1 e1, Fin m2 e2) \<Rightarrow> number_value neg (nat \<bar>m1\<bar>) (nat \<bar>m2\<bar>) (e1 - e2)
            | _ \<Rightarrow> NaN))"

text \<open>\<^verbatim>\<open>Number.isInteger(x)\<close>.\<close>

fun isInteger :: "jsnum \<Rightarrow> bool" where
  "isInteger NegZero = True"
| "isInteger (Fin m e) = (0 \<le> e \<or> m mod 2 ^ nat (- e) = 0)"
| "isInteger _ = False"

subsection \<open>Numbers and strings\<close>

definition digits_value :: "jsstring \<Rightarrow> nat" where
  "digits_value ds = foldl (\<lambda>v c. 10 * v + (c - 48)) 0 ds"

text \<open>
  \<^verbatim>\<open>parseFloat(s)\<close>: an optional sign, then \<^verbatim>\<open>Infinity\<close> or the longest decimal literal
  that starts the string (digits, then optionally a point and digits; one digit at
  least), and \<open>NaN\<close> when there is none. The program applies it to number tokens and to
  the results of \<^verbatim>\<open>toFixed\<close>; leading white space and exponent parts, which these
  strings never have, are left out.
\<close>

definition decimal_value :: "bool \<Rightarrow> jsstring \<Rightarrow> jsstring \<Rightarrow> jsnum" where
  "decimal_value neg ip fp =
     (if ip = [] \<and> fp = [] then NaN
      else number_value neg (digits_value (ip @ fp)) (10 ^ length fp) 0)"

definition parse_decimal :: "bool \<Rightarrow> jsstring \<Rightarrow> jsnum" where
  "parse_decimal neg r =
     decimal_value neg (takeWhile is_digit r)
       (if dropWhile is_digit r \<noteq> [] \<and> hd (dropWhile is_digit r) = DOT
        then takeWhile is_digit (tl (dropWhile is_digit r)) else [])"

definition parse_unsigned :: "bool \<Rightarrow> jsstring \<Rightarrow> jsnum" where
  "parse_unsigned neg r =
     (if take 8 r = js ''Infinity'' then (if neg then NegInf else PosInf)
      else parse_decimal neg r)"

definition parseFloat :: "jsstring \<Rightarrow> jsnum" where
  "parseFloat s =
     (if s \<noteq> [] \<and> hd s = MINUS then parse_unsigned True (tl s)
      else if s \<noteq> [] \<and> hd s = PLUS then parse_unsigned False (tl s)
      else parse_unsigned False s)"

fun digit_string :: "nat \<Rightarrow> jsstring" where
  "digit_string n = (if n < 10 then [48 + n] else digit_string (n div 10) @ [48 + n mod 10])"

declare digit_string.simps [simp del]

text \<open>The integer \<open>n\<close> for which \<open>n / 10 ^ f\<close> is nearest to \<open>a * 2 ^ e\<close>, the larger of two.\<close>

definition scaled_round :: "nat \<Rightarrow> int \<Rightarrow> nat \<Rightarrow> nat" where
  "scaled_round a e f =
     (if 0 \<le> e then a * 2 ^ nat e * 10 ^ f
      else (2 * a * 10 ^ f + 2 ^ nat (- e)) div (2 * 2 ^ nat (- e)))"

text \<open>
  The digits of \<open>n\<close>, filled with zeros on the left to \<open>f + 1\<close> digits, with the point
  before the last \<open>f\<close> of them.
\<close>

definition insert_point :: "jsstring \<Rightarrow> nat \<Rightarrow> jsstring" where
  "insert_point m f =
     (if f \<noteq> 0 then take (length m - f) m @ DOT # drop (length m - f) m else m)"

definition fixed_point :: "nat \<Rightarrow> nat \<Rightarrow> jsstring" where
  "fixed_point n f =
     insert_point (replicate (f + 1 - length (digit_string n)) ZERO @ digit_string n) f"

text \<open>
  \<^verbatim>\<open>x.toFixed(f)\<close>. From \<open>10 ^ 21\<close> on JavaScript switches to the exponent notation; such
  numbers are integers, and the program formats no integer with \<^verbatim>\<open>toFixed\<close>.
\<close>

fun toFixed :: "jsnum \<Rightarrow> nat \<Rightarrow> jsstring" where
  "toFixed NaN f = js ''NaN''"
| "toFixed PosInf f = js ''Infinity''"
| "toFixed NegInf f = js ''-Infinity''"
| "toFixed NegZero f = fixed_point 0 f"
| "toFixed (Fin m e) f =
     (if m < 0 then [MINUS] else []) @ fixed_point (scaled_round (nat \<bar>m\<bar>) e f) f"

section \<open>The calculator engine\<close>

text \<open>The messages of the errors that the engine throws, and the TypeError of the runtime.\<close>

datatype error =
    InvalidCharacter         \<comment> \<open>\<^verbatim>\<open>Invalid characters in expression\<close>\<close>
  | MismatchedParentheses    \<comment> \<open>\<^verbatim>\<open>Mismatched parentheses\<close>\<close>
  | DivisionByZero           \<comment> \<open>\<^verbatim>\<open>Division by zero\<close>\<close>
  | InvalidExpression        \<comment> \<open>\<^verbatim>\<open>Invalid expression\<close>\<close>
  | InvalidOperator          \<comment> \<open>\<^verbatim>\<open>Invalid operator\<close>\<close>
  | TypeError                \<comment> \<open>reading a property of \<^verbatim>\<open>undefined\<close>\<close>

subsection \<open>The operator table\<close>

record operator =
  precedence :: nat
  operation :: "jsnum \<Rightarrow> jsnum \<Rightarrow> error + jsnum"

text \<open>
  \<^verbatim>\<open>this.operators\<close>, as the constructor of \<^verbatim>\<open>CalculatorEngine\<close> fills it. A lookup is
  modelled for the strings that the tokenizer can produce; the names of the properties
  that every JavaScript object inherits are not among them.
\<close>

definition operators :: "jsstring \<rightharpoonup> operator" where
  "operators =
     [[PLUS] \<mapsto> \<lparr>precedence = 1, operation = (\<lambda>a b. Inr (js_add a b))\<rparr>,
      [MINUS] \<mapsto> \<lparr>precedence = 1, operation = (\<lambda>a b. Inr (js_sub a b))\<rparr>,
      [STAR] \<mapsto> \<lparr>precedence = 2, operation = (\<lambda>a b. Inr (js_mul a b))\<rparr>,
      [SLASH] \<mapsto> \<lparr>precedence = 2, operation =
         (\<lambda>a b. if is_zero b then Inl DivisionByZero else Inr (js_div a b))\<rparr>]"

subsection \<open>Tokens\<close>

text \<open>
  One match of \<^verbatim>\<open>\d*\.?\d+\<close> at the start of a string, as the backtracking matcher finds
  it: all the digits, then a point and all the digits after it when a digit follows the
  point, and otherwise the digits alone, when there is one. The result is the match and
  the rest of the string.
\<close>

definition match_number :: "jsstring \<Rightarrow> (jsstring \<times> jsstring) option" where
  "match_number s =
     (let ds = takeWhile is_digit s; r = dropWhile is_digit s in
      if r \<noteq> [] \<and> hd r = DOT \<and> tl r \<noteq> [] \<and> is_digit (hd (tl r))
      then Some (ds @ DOT # takeWhile is_digit (tl r), dropWhile is_digit (tl r))
      else if ds \<noteq> [] then Some (ds, r)
      else None)"

lemma match_number_shorter:
  assumes "match_number s = Some (t, r)"
  shows "length r < length s"
proof -
  have l: "length (dropWhile is_digit xs) \<le> length xs" for xs
    by (rule length_dropWhile_le)
  show ?thesis
  proof (cases "dropWhile is_digit s \<noteq> [] \<and> hd (dropWhile is_digit s) = DOT
      \<and> tl (dropWhile is_digit s) \<noteq> [] \<and> is_digit (hd (tl (dropWhile is_digit s)))")
    case True
    with assms have r: "r = dropWhile is_digit (tl (dropWhile is_digit s))"
      by (simp add: match_number_def Let_def)
    from True have "length (tl (dropWhile is_digit s)) < length (dropWhile is_digit s)"
      by (cases "dropWhile is_digit s") simp_all
    with l [of s] l [of "tl (dropWhile is_digit s)"] show ?thesis
      unfolding r by linarith
  next
    case False
    with assms have ne: "takeWhile is_digit s \<noteq> []" and r: "r = dropWhile is_digit s"
      by (auto simp: match_number_def Let_def split: if_splits)
    have "length (takeWhile is_digit s) + length (dropWhile is_digit s) = length s"
      by (metis length_append takeWhile_dropWhile_id)
    with ne r show ?thesis
      by (cases "takeWhile is_digit s") simp_all
  qed
qed

text \<open>
  \<^verbatim>\<open>expression.match(/(\d*\.?\d+|[+\-*/()])/g) || []\<close>: the matches from left to right.
  A character at which neither alternative matches is passed over.
\<close>

function match_tokens :: "jsstring \<Rightarrow> jsstring list" where
  "match_tokens [] = []"
| "match_tokens (c # cs) =
     (case match_number (c # cs) of
        Some (t, r) \<Rightarrow> t # match_tokens r
      | None \<Rightarrow> if is_opchar c then [c] # match_tokens cs else match_tokens cs)"
  by pat_completeness auto
termination
  by (relation "measure length") (auto dest: match_number_shorter)

text \<open>\<^verbatim>\<open>/^\d*\.?\d+$/.test(token)\<close>.\<close>

definition is_number_token :: "jsstring \<Rightarrow> bool" where
  "is_number_token t =
     (let ds = takeWhile is_digit t; r = dropWhile is_digit t in
      if r = [] then ds \<noteq> []
      else hd r = DOT \<and> tl r \<noteq> [] \<and> list_all is_digit (tl r))"

subsection \<open>Conversion to Reverse Polish Notation\<close>

text \<open>
  An element of the output array: a number, or the string of an operator. The operator
  stack is a list whose head is the top of the stack (the last element of the array).
\<close>

datatype rpn = Num jsnum | Op jsstring

text \<open>
  \<^verbatim>\<open>while (operators.length && operators[operators.length - 1] !== '(')
    output.push(operators.pop());\<close>
\<close>

fun pop_to_paren :: "rpn list \<Rightarrow> jsstring list \<Rightarrow> rpn list \<times> jsstring list" where
  "pop_to_paren output [] = (output, [])"
| "pop_to_paren output (t # ops) =
     (if t \<noteq> [LPAREN] then pop_to_paren (output @ [Op t]) ops else (output, t # ops))"

text \<open>
  The loop of the operator branch, for the precedence \<open>p\<close> of the current operator. The
  comparison \<^verbatim>\<open>this.operators[top]?.precedence >= p\<close> is false when the table has no
  entry for the top of the stack.
\<close>

fun pop_operators :: "nat \<Rightarrow> rpn list \<Rightarrow> jsstring list \<Rightarrow> rpn list \<times> jsstring list" where
  "pop_operators p output [] = (output, [])"
| "pop_operators p output (t # ops) =
     (if t \<noteq> [LPAREN] \<and> (case operators t of Some d \<Rightarrow> p \<le> precedence d | None \<Rightarrow> False)
      then pop_operators p (output @ [Op t]) ops
      else (output, t # ops))"

text \<open>
  The \<^verbatim>\<open>for (const token of tokens)\<close> loop of \<^verbatim>\<open>toRPN\<close>. In the operator branch, a
  token without an entry in the table makes \<^verbatim>\<open>currentOperator\<close> undefined; the loop
  condition reads \<^verbatim>\<open>currentOperator.precedence\<close>, a TypeError, once the stack is not empty
  and its top is not an opening parenthesis, and otherwise the token is pushed.
\<close>

fun shunt :: "jsstring list \<Rightarrow> rpn list \<Rightarrow> jsstring list \<Rightarrow> error + rpn list \<times> jsstring list" where
  "shunt [] output ops = Inr (output, ops)"
| "shunt (token # tokens) output ops =
     (if is_number_token token then shunt tokens (output @ [Num (parseFloat token)]) ops
      else if token = [LPAREN] then shunt tokens output (token # ops)
      else if token = [RPAREN] then
        (case pop_to_paren output ops of
           (output', []) \<Rightarrow> Inl MismatchedParentheses
         | (output', t # ops') \<Rightarrow>
             if t \<noteq> [LPAREN] then Inl MismatchedParentheses else shunt tokens output' ops')
      else
        (case operators token of
           None \<Rightarrow>
             if ops = [] \<or> hd ops = [LPAREN] then shunt tokens output (token # ops)
             else Inl TypeError
         | Some currentOperator \<Rightarrow>
             (case pop_operators (precedence currentOperator) output ops of
                (output', ops') \<Rightarrow> shunt tokens output' (token # ops'))))"

text \<open>The last loop of \<^verbatim>\<open>toRPN\<close>: \<^verbatim>\<open>while (operators.length) { ... }\<close>.\<close>

fun pop_remaining :: "rpn list \<Rightarrow> jsstring list \<Rightarrow> error + rpn list" where
  "pop_remaining output [] = Inr output"
| "pop_remaining output (operator # ops) =
     (if operator = [LPAREN] then Inl MismatchedParentheses
      else pop_remaining (output @ [Op operator]) ops)"

definition toRPN :: "jsstring \<Rightarrow> error + rpn list" where
  "toRPN expression =
     (case shunt (match_tokens expression) [] [] of
        Inl e \<Rightarrow> Inl e
      | Inr (output, ops) \<Rightarrow> pop_remaining output ops)"

subsection \<open>Evaluation\<close>

text \<open>
  The \<^verbatim>\<open>for (const token of rpn)\<close> loop of \<^verbatim>\<open>evaluateRPN\<close>. The head of the list is the
  top of the stack: \<open>b\<close> is popped first, then \<open>a\<close>.
\<close>

fun eval_loop :: "rpn list \<Rightarrow> jsnum list \<Rightarrow> error + jsnum list" where
  "eval_loop [] stack = Inr stack"
| "eval_loop (Num n # rest) stack = eval_loop rest (n # stack)"
| "eval_loop (Op token # rest) (b # a # stack) =
     (case operators token of
        None \<Rightarrow> Inl InvalidOperator
      | Some d \<Rightarrow>
          (case operation d a b of
             Inl e \<Rightarrow> Inl e
           | Inr v \<Rightarrow> eval_loop rest (v # stack)))"
| "eval_loop (Op token # rest) _ = Inl InvalidExpression"

text \<open>\<^verbatim>\<open>Number.isInteger(result) ? result : parseFloat(result.toFixed(8))\<close>.\<close>

definition format_result :: "jsnum \<Rightarrow> jsnum" where
  "format_result result = (if isInteger result then result else parseFloat (toFixed result 8))"

definition evaluateRPN :: "rpn list \<Rightarrow> error + jsnum" where
  "evaluateRPN rpn =
     (case eval_loop rpn [] of
        Inl e \<Rightarrow> Inl e
      | Inr stack \<Rightarrow>
          if length stack \<noteq> 1 then Inl InvalidExpression
          else Inr (format_result (stack ! 0)))"

subsection \<open>The entry point\<close>

text \<open>\<^verbatim>\<open>expression.replace(/\s+/g, '')\<close>.\<close>

definition strip_whitespace :: "jsstring \<Rightarrow> jsstring" where
  "strip_whitespace expression = filter (\<lambda>c. \<not> is_space c) expression"

text \<open>\<^verbatim>\<open>/^[0-9+\-*/.()]+$/.test(expression)\<close>.\<close>

definition valid_characters :: "jsstring \<Rightarrow> bool" where
  "valid_characters expression \<longleftrightarrow> expression \<noteq> [] \<and> list_all is_allowed expression"

definition calculate :: "jsstring \<Rightarrow> error + jsnum" where
  "calculate expression =
     (let expression = strip_whitespace expression in
      if \<not> valid_characters expression then Inl InvalidCharacter
      else (case toRPN expression of
              Inl e \<Rightarrow> Inl e
            | Inr rpn \<Rightarrow> evaluateRPN rpn))"

section \<open>The standalone copy in script.js\<close>

text \<open>The table \<^verbatim>\<open>precedence\<close> of \<^verbatim>\<open>safeCalculate\<close>.\<close>

definition script_precedence :: "jsstring \<rightharpoonup> nat" where
  "script_precedence = [[PLUS] \<mapsto> 1, [MINUS] \<mapsto> 1, [STAR] \<mapsto> 2, [SLASH] \<mapsto> 2]"

text \<open>\<^verbatim>\<open>x >= y\<close> on table entries: false when one of them is \<^verbatim>\<open>undefined\<close>.\<close>

definition js_ge :: "nat option \<Rightarrow> nat option \<Rightarrow> bool" where
  "js_ge x y = (case (x, y) of (Some p, Some q) \<Rightarrow> q \<le> p | _ \<Rightarrow> False)"

fun script_pop_to_paren :: "rpn list \<Rightarrow> jsstring list \<Rightarrow> rpn list \<times> jsstring list" where
  "script_pop_to_paren output [] = (output, [])"
| "script_pop_to_paren output (t # ops) =
     (if t \<noteq> [LPAREN] then script_pop_to_paren (output @ [Op t]) ops else (output, t # ops))"

fun script_pop_operators :: "jsstring \<Rightarrow> rpn list \<Rightarrow> jsstring list \<Rightarrow> rpn list \<times> jsstring list" where
  "script_pop_operators token output [] = (output, [])"
| "script_pop_operators token output (t # ops) =
     (if t \<noteq> [LPAREN] \<and> js_ge (script_precedence t) (script_precedence token)
      then script_pop_operators token (output @ [Op t]) ops
      else (output, t # ops))"

fun script_shunt :: "jsstring list \<Rightarrow> rpn list \<Rightarrow> jsstring list \<Rightarrow> error + rpn list \<times> jsstring list" where
  "script_shunt [] output ops = Inr (output, ops)"
| "script_shunt (token # tokens) output ops =
     (if is_number_token token then script_shunt tokens (output @ [Num (parseFloat token)]) ops
      else if token = [LPAREN] then script_shunt tokens output (token # ops)
      else if token = [RPAREN] then
        (case script_pop_to_paren output ops of
           (output', []) \<Rightarrow> Inl MismatchedParentheses
         | (output', t # ops') \<Rightarrow>
             if t \<noteq> [LPAREN] then Inl MismatchedParentheses else script_shunt tokens output' ops')
      else
        (case script_pop_operators token output ops of
           (output', ops') \<Rightarrow> script_shunt tokens output' (token # ops')))"

fun script_pop_remaining :: "rpn list \<Rightarrow> jsstring list \<Rightarrow> error + rpn list" where
  "script_pop_remaining output [] = Inr output"
| "script_pop_remaining output (operator # ops) =
     (if operator = [LPAREN] then Inl MismatchedParentheses
      else script_pop_remaining (output @ [Op operator]) ops)"

text \<open>
  The evaluation loop with its \<^verbatim>\<open>switch\<close>. The switch has no default: on any other token
  the two values are popped and nothing is pushed.
\<close>

fun script_eval_loop :: "rpn list \<Rightarrow> jsnum list \<Rightarrow> error + jsnum list" where
  "script_eval_loop [] stack = Inr stack"
| "script_eval_loop (Num n # rest) stack = script_eval_loop rest (n # stack)"
| "script_eval_loop (Op token # rest) (b # a # stack) =
     (if token = [PLUS] then script_eval_loop rest (js_add a b # stack)
      else if token = [MINUS] then script_eval_loop rest (js_sub a b # stack)
      else if token = [STAR] then script_eval_loop rest (js_mul a b # stack)
      else if token = [SLASH] then
        (if is_zero b then Inl DivisionByZero else script_eval_loop rest (js_div a b # stack))
      else script_eval_loop rest stack)"
| "script_eval_loop (Op token # rest) _ = Inl InvalidExpression"

definition safeCalculate :: "jsstring \<Rightarrow> error + jsnum" where
  "safeCalculate expression =
     (let expression = strip_whitespace expression in
      if \<not> valid_characters expression then Inl InvalidCharacter
      else (case script_shunt (match_tokens expression) [] [] of
              Inl e \<Rightarrow> Inl e
            | Inr (output, ops) \<Rightarrow>
                (case script_pop_remaining output ops of
                   Inl e \<Rightarrow> Inl e
                 | Inr rpn \<Rightarrow>
                     (case script_eval_loop rpn [] of
                        Inl e \<Rightarrow> Inl e
                      | Inr stack \<Rightarrow>
                          if length stack \<noteq> 1 then Inl InvalidExpression
                          else Inr (stack ! 0)))))"

text \<open>
  What \<^verbatim>\<open>calculateResult\<close> shows for an input: the result of \<^verbatim>\<open>safeCalculate\<close>, formatted
  by \<^verbatim>\<open>Number.isInteger(result) ? result : parseFloat(result.toFixed(8))\<close>, or the error.
\<close>

definition script_result :: "jsstring \<Rightarrow> error + jsnum" where
  "script_result currentInput =
     (case safeCalculate currentInput of
        Inl e \<Rightarrow> Inl e
      | Inr result \<Rightarrow> Inr (if isInteger result then result else parseFloat (toFixed result 8)))"

section \<open>Reference notions\<close>

subsection \<open>Infix expressions and their values\<close>

text \<open>
  An infix expression as a tree: a number literal, an expression in parentheses, or two
  expressions with a binary operator between them.
\<close>

datatype expr = Lit jsstring | Paren expr | Bin expr jsstring expr

fun show_expr :: "expr \<Rightarrow> jsstring" where
  "show_expr (Lit l) = l"
| "show_expr (Paren e) = LPAREN # show_expr e @ [RPAREN]"
| "show_expr (Bin l opr r) = show_expr l @ opr @ show_expr r"

definition is_binary_operator :: "jsstring \<Rightarrow> bool" where
  "is_binary_operator opr \<longleftrightarrow> opr = [PLUS] \<or> opr = [MINUS] \<or> opr = [STAR] \<or> opr = [SLASH]"

text \<open>Standard precedence: \<^verbatim>\<open>*\<close> and \<^verbatim>\<open>/\<close> bind tighter than \<^verbatim>\<open>+\<close> and \<^verbatim>\<open>-\<close>.\<close>

definition level :: "jsstring \<Rightarrow> nat" where
  "level opr = (if opr = [STAR] \<or> opr = [SLASH] then 2 else 1)"

fun binding :: "expr \<Rightarrow> nat" where
  "binding (Lit l) = 3"
| "binding (Paren e) = 3"
| "binding (Bin l opr r) = level opr"

text \<open>
  The tree is the reading of its string under standard precedence, operators of equal
  precedence grouping from the left: the left operand of an operator binds at least as
  tightly as the operator, the right operand binds more tightly. A literal is a
  string of digits with at most one point, which a digit follows.
\<close>

fun well_formed :: "expr \<Rightarrow> bool" where
  "well_formed (Lit l) = is_number_token l"
| "well_formed (Paren e) = well_formed e"
| "well_formed (Bin l opr r) =
     (is_binary_operator opr \<and> well_formed l \<and> well_formed r
      \<and> level opr \<le> binding l \<and> level opr < binding r)"

definition apply_operator :: "jsstring \<Rightarrow> jsnum \<Rightarrow> jsnum \<Rightarrow> error + jsnum" where
  "apply_operator opr a b =
     (if opr = [PLUS] then Inr (js_add a b)
      else if opr = [MINUS] then Inr (js_sub a b)
      else if opr = [STAR] then Inr (js_mul a b)
      else if is_zero b then Inl DivisionByZero
      else Inr (js_div a b))"

text \<open>The value of an expression; a division by zero has none.\<close>

fun expr_value :: "expr \<Rightarrow> error + jsnum" where
  "expr_value (Lit l) = Inr (parseFloat l)"
| "expr_value (Paren e) = expr_value e"
| "expr_value (Bin l opr r) =
     (case expr_value l of
        Inl e \<Rightarrow> Inl e
      | Inr a \<Rightarrow> (case expr_value r of Inl e \<Rightarrow> Inl e | Inr b \<Rightarrow> apply_operator opr a b))"

fun expr_tokens :: "expr \<Rightarrow> jsstring list" where
  "expr_tokens (Lit l) = [l]"
| "expr_tokens (Paren e) = [LPAREN] # expr_tokens e @ [[RPAREN]]"
| "expr_tokens (Bin l opr r) = expr_tokens l @ opr # expr_tokens r"

fun postfix :: "expr \<Rightarrow> rpn list" where
  "postfix (Lit l) = [Num (parseFloat l)]"
| "postfix (Paren e) = postfix e"
| "postfix (Bin l opr r) = postfix l @ postfix r @ [Op opr]"

text \<open>What follows a literal in a string does not continue it: no digit and no point.\<close>

definition starts_clean :: "jsstring \<Rightarrow> bool" where
  "starts_clean rest \<longleftrightarrow> rest = [] \<or> (\<not> is_digit (hd rest) \<and> hd rest \<noteq> DOT)"

text \<open>
  The loop of an operator of precedence \<open>k\<close> pops nothing from this stack: the stack is
  empty, or its top is an opening parenthesis or binds less tightly.
\<close>

definition stops :: "nat \<Rightarrow> jsstring list \<Rightarrow> bool" where
  "stops k ops \<longleftrightarrow>
     (case ops of
        [] \<Rightarrow> True
      | t # _ \<Rightarrow> t = [LPAREN] \<or> (case operators t of Some d \<Rightarrow> precedence d < k | None \<Rightarrow> True))"

subsection \<open>Balanced parentheses\<close>

text \<open>
  The depth of open parentheses after a token sequence, from a given depth; \<open>None\<close> when
  a closing parenthesis has no partner.
\<close>

fun paren_depth :: "jsstring list \<Rightarrow> nat \<Rightarrow> nat option" where
  "paren_depth [] n = Some n"
| "paren_depth (t # ts) n =
     (if t = [LPAREN] then paren_depth ts (n + 1)
      else if t = [RPAREN] then (if n = 0 then None else paren_depth ts (n - 1))
      else paren_depth ts n)"

text \<open>The number of opening parentheses on the operator stack.\<close>

definition paren_count :: "jsstring list \<Rightarrow> nat" where
  "paren_count ops = length (filter (\<lambda>t. t = [LPAREN]) ops)"

text \<open>Every string in an output sequence is one of the four operators.\<close>

definition operators_only :: "rpn list \<Rightarrow> bool" where
  "operators_only out \<longleftrightarrow> (\<forall>t. Op t \<in> set out \<longrightarrow> is_binary_operator t)"

subsection \<open>Counting operands and operators\<close>

text \<open>Numbers minus operators, in an output sequence and in a token sequence.\<close>

fun balance :: "rpn list \<Rightarrow> int" where
  "balance [] = 0"
| "balance (Num n # out) = balance out + 1"
| "balance (Op t # out) = balance out - 1"

fun token_balance :: "jsstring list \<Rightarrow> int" where
  "token_balance [] = 0"
| "token_balance (t # ts) =
     (if is_number_token t then 1 else if t = [LPAREN] \<or> t = [RPAREN] then 0 else - 1)
     + token_balance ts"

text \<open>The number of operators on the operator stack.\<close>

definition waiting :: "jsstring list \<Rightarrow> int" where
  "waiting ops = int (length (filter (\<lambda>t. t \<noteq> [LPAREN]) ops))"

subsection \<open>The characters of the tokens\<close>

text \<open>
  The characters of a string that some token carries: the digits, the operators and
  parentheses, and each point that a digit directly follows.
\<close>

fun kept_characters :: "jsstring \<Rightarrow> jsstring" where
  "kept_characters [] = []"
| "kept_characters (c # cs) =
     (if is_digit c \<or> is_opchar c \<or> (c = DOT \<and> cs \<noteq> [] \<and> is_digit (hd cs))
      then c # kept_characters cs
      else kept_characters cs)"

text \<open>A string without its points that no digit directly follows.\<close>

fun drop_points :: "jsstring \<Rightarrow> jsstring" where
  "drop_points [] = []"
| "drop_points (c # cs) =
     (if c = DOT \<and> (cs = [] \<or> \<not> is_digit (hd cs)) then drop_points cs
      else c # drop_points cs)"

subsection \<open>The number pattern of the specification\<close>

text \<open>
  ``One or more digits optionally followed by a decimal point and more digits'': the
  pattern that the specification gives for number tokens.
\<close>

definition spec_number_pattern :: "jsstring \<Rightarrow> bool" where
  "spec_number_pattern t \<longleftrightarrow>
     takeWhile is_digit t \<noteq> [] \<and>
     (dropWhile is_digit t = [] \<or>
      (hd (dropWhile is_digit t) = DOT \<and> tl (dropWhile is_digit t) \<noteq> []
       \<and> list_all is_digit (tl (dropWhile is_digit t))))"

text \<open>The token of a binary operator or of a parenthesis: one character.\<close>

definition is_symbol_token :: "jsstring \<Rightarrow> bool" where
  "is_symbol_token t \<longleftrightarrow> length t = 1 \<and> is_opchar (hd t)"

section \<open>Evaluation of the model on concrete inputs\<close>

text \<open>
  The recursive helpers unfold only on an argument that decides their condition, as a
  numeral does.
\<close>

lemma bit_length_eval:
  "bit_length 0 = 0"
  "0 < n \<Longrightarrow> bit_length n = 1 + bit_length (n div 2)"
  by (simp_all add: bit_length.simps)

lemma odd_part_eval:
  "odd_part 0 u = (0, u)"
  "odd n \<Longrightarrow> odd_part n u = (n, u)"
  "0 < n \<Longrightarrow> even n \<Longrightarrow> odd_part n u = odd_part (n div 2) (u + 1)"
  by (simp_all add: odd_part.simps)

lemma digit_string_eval:
  "n < 10 \<Longrightarrow> digit_string n = [48 + n]"
  "10 \<le> n \<Longrightarrow> digit_string n = digit_string (n div 10) @ [48 + n mod 10]"
  by (simp_all add: digit_string.simps)

lemma replicate_eval: "0 < n \<Longrightarrow> replicate n x = x # replicate (n - 1) x"
  by (cases n) simp_all

lemma take_eval: "0 < n \<Longrightarrow> take n (x # xs) = x # take (n - 1) xs"
  by (cases n) simp_all

lemma drop_eval: "0 < n \<Longrightarrow> drop n (x # xs) = drop (n - 1) xs"
  by (cases n) simp_all

lemmas number_eval =
  number_of_int_def number_value_def round_at_def dyadic_def odd_part_eval nearest_even_def
  floor_log2_def log2_between_def bit_length_eval js_sub_def js_mul_def js_div_def
  is_zero_def is_negative_def is_infinite_def

lemmas string_eval =
  js_def is_space_def is_allowed_def is_digit_def is_opchar_def
  parseFloat_def parse_unsigned_def parse_decimal_def decimal_value_def digits_value_def
  fixed_point_def insert_point_def scaled_round_def digit_string_eval
  replicate_eval take_eval drop_eval

lemmas engine_eval =
  calculate_def strip_whitespace_def valid_characters_def toRPN_def evaluateRPN_def
  format_result_def match_number_def is_number_token_def operators_def Let_def

section \<open>The postfix evaluator\<close>

lemma eval_loop_append:
  "eval_loop (xs @ ys) stack =
     (case eval_loop xs stack of Inl e \<Rightarrow> Inl e | Inr stack' \<Rightarrow> eval_loop ys stack')"
proof (induction xs stack rule: eval_loop.induct)
  case (3 token rest b a stack)
  then show ?case
    by (simp split: option.splits sum.splits)
qed simp_all

lemma eval_loop_underflow:
  assumes "length stack < 2"
  shows "eval_loop (Op token # rest) stack = Inl InvalidExpression"
proof (cases stack)
  case (Cons b stack')
  with assms show ?thesis
    by (cases stack') simp_all
qed simp

lemma operators_slash:
  "operators [SLASH] = Some d \<Longrightarrow>
     operation d a b = (if is_zero b then Inl DivisionByZero else Inr (js_div a b))"
  by (auto simp: operators_def)

text \<open>
  C3. When the division operator is applied to a divisor \<open>b\<close> (the value pushed last) that
  is zero, of either sign, the evaluation fails with the division by zero error, whatever
  the dividend is and whatever follows; every other divisor is divided by. In particular
  \<^verbatim>\<open>5/0\<close> fails with this error.
\<close>

theorem division_by_zero:
  "(is_zero b \<longleftrightarrow> b = NegZero \<or> (\<exists>e. b = Fin 0 e))
   \<and> (is_zero b \<longrightarrow> eval_loop (Op [SLASH] # rest) (b # a # stack) = Inl DivisionByZero)
   \<and> (is_zero b \<longrightarrow> eval_loop front [] = Inr (b # a # stack) \<longrightarrow>
        evaluateRPN (front @ Op [SLASH] # rest) = Inl DivisionByZero)
   \<and> (\<not> is_zero b \<longrightarrow>
        eval_loop (Op [SLASH] # rest) (b # a # stack) = eval_loop rest (js_div a b # stack))
   \<and> calculate (js ''5/0'') = Inl DivisionByZero"
proof -
  have 1: "is_zero b \<longleftrightarrow> b = NegZero \<or> (\<exists>e. b = Fin 0 e)"
    by (cases b) (simp_all add: is_zero_def)
  have 2: "eval_loop (Op [SLASH] # rest) (b # a # stack) = Inl DivisionByZero" if "is_zero b"
    using that by (simp add: operators_def)
  have 3: "evaluateRPN (front @ Op [SLASH] # rest) = Inl DivisionByZero"
    if "is_zero b" "eval_loop front [] = Inr (b # a # stack)"
    using that 2 by (simp add: evaluateRPN_def eval_loop_append)
  have 4: "eval_loop (Op [SLASH] # rest) (b # a # stack) = eval_loop rest (js_div a b # stack)"
    if "\<not> is_zero b"
    using that by (simp add: operators_def)
  have 5: "calculate (js ''5/0'') = Inl DivisionByZero"
    by (simp add: engine_eval string_eval number_eval)
  from 1 2 3 4 5 show ?thesis
    by blast
qed

theorem division_by_zero_witness:
  "is_zero NegZero \<and> eval_loop [Num (Fin 5 0), Num NegZero] [] = Inr [NegZero, Fin 5 0]
   \<and> evaluateRPN ([Num (Fin 5 0), Num NegZero] @ Op [SLASH] # [Num (Fin 1 0), Op [PLUS]])
       = Inl DivisionByZero
   \<and> \<not> is_zero (Fin 1 (- 1074))
   \<and> eval_loop [Op [SLASH]] [Fin 1 (- 1074), Fin 1 0] = Inr [js_div (Fin 1 0) (Fin 1 (- 1074))]"
  using division_by_zero [of NegZero "[Num (Fin 1 0), Op [PLUS]]" "Fin 5 0" "[]"
      "[Num (Fin 5 0), Num NegZero]"]
    division_by_zero [of "Fin 1 (- 1074)" "[]" "Fin 1 0" "[]" "[]"]
  by (simp add: is_zero_def)

section \<open>Errors\<close>

lemma operators_cases:
  assumes "operators t = Some d"
  obtains "t = [PLUS]" "precedence d = 1" "operation d = (\<lambda>a b. Inr (js_add a b))"
  | "t = [MINUS]" "precedence d = 1" "operation d = (\<lambda>a b. Inr (js_sub a b))"
  | "t = [STAR]" "precedence d = 2" "operation d = (\<lambda>a b. Inr (js_mul a b))"
  | "t = [SLASH]" "precedence d = 2"
      "operation d = (\<lambda>a b. if is_zero b then Inl DivisionByZero else Inr (js_div a b))"
  using assms by (auto simp: operators_def split: if_splits)

lemma operation_error:
  assumes "operators t = Some d" "operation d a b = Inl e"
  shows "e = DivisionByZero"
  using assms by (elim operators_cases) (auto split: if_splits)

lemma eval_loop_error:
  "eval_loop rpn stack = Inl e \<Longrightarrow> e = InvalidExpression \<or> e = InvalidOperator \<or> e = DivisionByZero"
proof (induction rpn stack rule: eval_loop.induct)
  case (3 token rest b a stack)
  then show ?case
    by (auto split: option.splits sum.splits dest: operation_error)
qed simp_all

lemma shunt_error:
  "shunt tokens out ops = Inl e \<Longrightarrow> e = MismatchedParentheses \<or> e = TypeError"
proof (induction tokens out ops rule: shunt.induct)
  case (2 token tokens out ops)
  then show ?case
    by (auto split: if_splits prod.splits list.splits option.splits)
qed simp

lemma pop_remaining_error:
  "pop_remaining out ops = Inl e \<Longrightarrow> e = MismatchedParentheses"
  by (induction out ops rule: pop_remaining.induct) (auto split: if_splits)

lemma toRPN_error:
  "toRPN expression = Inl e \<Longrightarrow> e = MismatchedParentheses \<or> e = TypeError"
  by (auto simp: toRPN_def split: sum.splits prod.splits dest: shunt_error pop_remaining_error)

lemma evaluateRPN_error:
  "evaluateRPN rpn = Inl e \<Longrightarrow> e = InvalidExpression \<or> e = InvalidOperator \<or> e = DivisionByZero"
  by (auto simp: evaluateRPN_def split: sum.splits if_splits dest: eval_loop_error)

text \<open>
  C4. An operator token takes two values from the stack, \<open>b\<close> first and then \<open>a\<close>, so that
  the value pushed last is the right operand, and fails with the invalid expression error
  when the stack holds fewer than two values. After the whole sequence the evaluation
  succeeds only with exactly one value left; an operator alone and two numbers without an
  operator are rejected, and so is \<^verbatim>\<open>2++2\<close>.
\<close>

theorem postfix_stack_discipline:
  "(length stack < 2 \<longrightarrow> eval_loop (Op token # rest) stack = Inl InvalidExpression)
   \<and> (operators token = Some d \<longrightarrow>
        eval_loop (Op token # rest) (b # a # stack) =
          (case operation d a b of Inl e \<Rightarrow> Inl e | Inr v \<Rightarrow> eval_loop rest (v # stack)))
   \<and> eval_loop (Op [MINUS] # rest) (b # a # stack) = eval_loop rest (js_sub a b # stack)
   \<and> (evaluateRPN rpn = Inr v \<longrightarrow> (\<exists>r. eval_loop rpn [] = Inr [r]))
   \<and> (eval_loop rpn [] = Inr remaining \<longrightarrow> length remaining \<noteq> 1 \<longrightarrow>
        evaluateRPN rpn = Inl InvalidExpression)
   \<and> evaluateRPN [Op token] = Inl InvalidExpression
   \<and> evaluateRPN [Num a, Num b] = Inl InvalidExpression
   \<and> calculate (js ''2++2'') = Inl InvalidExpression"
proof -
  have 1: "eval_loop (Op token # rest) stack = Inl InvalidExpression" if "length stack < 2"
    using that by (rule eval_loop_underflow)
  have 2: "eval_loop (Op token # rest) (b # a # stack) =
      (case operation d a b of Inl e \<Rightarrow> Inl e | Inr v \<Rightarrow> eval_loop rest (v # stack))"
    if "operators token = Some d"
    using that by simp
  have 3: "eval_loop (Op [MINUS] # rest) (b # a # stack) = eval_loop rest (js_sub a b # stack)"
    by (simp add: operators_def)
  have 4: "\<exists>r. eval_loop rpn [] = Inr [r]" if "evaluateRPN rpn = Inr v"
  proof -
    from that obtain st where st: "eval_loop rpn [] = Inr st" "length st = 1"
      by (auto simp: evaluateRPN_def split: sum.splits if_splits)
    then obtain r where "st = [r]"
      by (cases st) auto
    with st show ?thesis
      by blast
  qed
  have 5: "evaluateRPN rpn = Inl InvalidExpression"
    if "eval_loop rpn [] = Inr remaining" "length remaining \<noteq> 1"
    using that by (simp add: evaluateRPN_def)
  have 6: "evaluateRPN [Op token] = Inl InvalidExpression"
    by (simp add: evaluateRPN_def)
  have 7: "evaluateRPN [Num a, Num b] = Inl InvalidExpression"
    by (simp add: evaluateRPN_def)
  have 8: "calculate (js ''2++2'') = Inl InvalidExpression"
    by (simp add: engine_eval string_eval number_eval)
  from 1 2 3 4 5 6 7 8 show ?thesis
    by blast
qed

theorem postfix_stack_discipline_witness:
  "eval_loop [Op [PLUS]] [Fin 1 0] = Inl InvalidExpression
   \<and> eval_loop [Op [MINUS]] [Fin 1 0, Fin 3 0] = Inr [js_sub (Fin 3 0) (Fin 1 0)]
   \<and> evaluateRPN [] = Inl InvalidExpression
   \<and> (\<exists>r. eval_loop [Num (Fin 1 0)] [] = Inr [r])"
  using postfix_stack_discipline [of "[Fin 1 0]" "[PLUS]" "[]" d "Fin 1 0" "Fin 3 0" "[]" v "[]"]
    postfix_stack_discipline [of "[]" "[PLUS]" "[]" d "Fin 1 0" "Fin 3 0" "[Num (Fin 1 0)]" "Fin 1 0" "[]"]
  by (simp add: evaluateRPN_def format_result_def)

text \<open>
  C9. The empty string, and every string of white space only, fails with the invalid
  character error: after the white space is removed nothing is left, and the validation
  pattern asks for one allowed character at least.
\<close>

theorem blank_input:
  assumes "\<forall>c \<in> set s. is_space c"
  shows "calculate s = Inl InvalidCharacter"
proof -
  from assms have "strip_whitespace s = []"
    by (simp add: strip_whitespace_def)
  then show ?thesis
    by (simp add: calculate_def valid_characters_def)
qed

theorem blank_input_witness:
  "calculate [] = Inl InvalidCharacter \<and> calculate [32, 9, 10, 160, 8232, 65279] = Inl InvalidCharacter"
  using blank_input [of "[]"] blank_input [of "[32, 9, 10, 160, 8232, 65279]"]
  by (simp add: is_space_def)

text \<open>
  C6. After the white space is removed, a character outside the digits, the point, the
  four operators and the parentheses makes the calculation fail with the invalid character
  error, whatever the conversion and the evaluation would do with the string; this error
  comes from the validation only. In particular \<^verbatim>\<open>2&3\<close> fails with it.
\<close>

theorem invalid_character:
  "(c \<in> set s \<and> \<not> is_space c \<and> \<not> is_allowed c \<longrightarrow> calculate s = Inl InvalidCharacter)
   \<and> (calculate s = Inl InvalidCharacter \<longleftrightarrow> \<not> valid_characters (strip_whitespace s))
   \<and> calculate (js ''2&3'') = Inl InvalidCharacter"
proof -
  have 1: "calculate s = Inl InvalidCharacter" if "c \<in> set s" "\<not> is_space c" "\<not> is_allowed c"
  proof -
    from that have "c \<in> set (strip_whitespace s)"
      by (simp add: strip_whitespace_def)
    with that(3) have "\<not> list_all is_allowed (strip_whitespace s)"
      by (auto simp: list_all_iff)
    then show ?thesis
      by (simp add: calculate_def valid_characters_def)
  qed
  have 2: "calculate s = Inl InvalidCharacter \<longleftrightarrow> \<not> valid_characters (strip_whitespace s)"
    by (auto simp: calculate_def Let_def split: sum.splits
        dest!: toRPN_error evaluateRPN_error)
  have 3: "calculate (js ''2&3'') = Inl InvalidCharacter"
    by (simp add: engine_eval string_eval)
  from 1 2 3 show ?thesis
    by blast
qed

theorem invalid_character_witness:
  "calculate [50, 32, 38, 51] = Inl InvalidCharacter \<and> \<not> valid_characters (strip_whitespace [50, 32, 38, 51])"
  using invalid_character [of 38 "[50, 32, 38, 51]"]
  by (auto simp: is_space_def is_allowed_def is_digit_def is_opchar_def)

section \<open>The tokenizer\<close>

lemma not_digit_DOT [simp]: "\<not> is_digit DOT"
  by (simp add: is_digit_def)

lemma digits_split: "takeWhile is_digit s @ dropWhile is_digit s = s"
  by simp

lemma takeWhile_digits_point:
  "list_all is_digit ds \<Longrightarrow> takeWhile is_digit (ds @ DOT # xs) = ds"
  by (induction ds) simp_all

lemma dropWhile_digits_point:
  "list_all is_digit ds \<Longrightarrow> dropWhile is_digit (ds @ DOT # xs) = DOT # xs"
  by (induction ds) simp_all

lemma takeWhile_all_digits: "list_all is_digit ds \<Longrightarrow> takeWhile is_digit ds = ds"
  by (induction ds) simp_all

lemma dropWhile_all_digits: "list_all is_digit ds \<Longrightarrow> dropWhile is_digit ds = []"
  by (induction ds) simp_all

lemma list_all_takeWhile: "list_all P (takeWhile P xs)"
  by (induction xs) simp_all

lemma is_number_token_iff:
  "is_number_token t \<longleftrightarrow>
     (\<exists>ds1 ds2. list_all is_digit ds1 \<and> list_all is_digit ds2 \<and> ds2 \<noteq> []
        \<and> (t = ds1 @ ds2 \<or> t = ds1 @ DOT # ds2))"
proof
  assume t: "is_number_token t"
  show "\<exists>ds1 ds2. list_all is_digit ds1 \<and> list_all is_digit ds2 \<and> ds2 \<noteq> []
        \<and> (t = ds1 @ ds2 \<or> t = ds1 @ DOT # ds2)"
  proof (cases "dropWhile is_digit t")
    case Nil
    then have "t = [] @ takeWhile is_digit t"
      by (metis append_Nil append_Nil2 takeWhile_dropWhile_id)
    moreover from t Nil have "takeWhile is_digit t \<noteq> []"
      by (simp add: is_number_token_def)
    moreover have "list_all is_digit []"
      by simp
    ultimately show ?thesis
      using list_all_takeWhile [of is_digit t] by blast
  next
    case (Cons c r)
    with t have "c = DOT" "r \<noteq> []" "list_all is_digit r"
      by (simp_all add: is_number_token_def)
    moreover from Cons have "t = takeWhile is_digit t @ c # r"
      using digits_split [of t] by simp
    ultimately show ?thesis
      using list_all_takeWhile [of is_digit t] by blast
  qed
next
  assume "\<exists>ds1 ds2. list_all is_digit ds1 \<and> list_all is_digit ds2 \<and> ds2 \<noteq> []
        \<and> (t = ds1 @ ds2 \<or> t = ds1 @ DOT # ds2)"
  then obtain ds1 ds2 where d: "list_all is_digit ds1" "list_all is_digit ds2" "ds2 \<noteq> []"
    and t: "t = ds1 @ ds2 \<or> t = ds1 @ DOT # ds2"
    by blast
  from t show "is_number_token t"
  proof
    assume "t = ds1 @ ds2"
    with d have "list_all is_digit t" "t \<noteq> []"
      by simp_all
    then show ?thesis
      by (simp add: is_number_token_def takeWhile_all_digits dropWhile_all_digits)
  next
    assume "t = ds1 @ DOT # ds2"
    with d show ?thesis
      by (simp add: is_number_token_def takeWhile_digits_point dropWhile_digits_point)
  qed
qed

lemma match_number_sound:
  assumes "match_number s = Some (t, r)"
  shows "s = t @ r" and "is_number_token t"
proof -
  let ?ds = "takeWhile is_digit s" and ?r0 = "dropWhile is_digit s"
  show "s = t @ r" "is_number_token t"
  proof (atomize (full), cases "?r0 \<noteq> [] \<and> hd ?r0 = DOT \<and> tl ?r0 \<noteq> [] \<and> is_digit (hd (tl ?r0))")
    case True
    then obtain r1 where r0: "?r0 = DOT # r1" and r1: "r1 \<noteq> []" "is_digit (hd r1)"
      by (cases ?r0) auto
    from assms True have t: "t = ?ds @ DOT # takeWhile is_digit r1"
      and r: "r = dropWhile is_digit r1"
      by (simp_all add: match_number_def Let_def r0)
    from r1 have ne: "takeWhile is_digit r1 \<noteq> []"
      by (cases r1) simp_all
    have "s = ?ds @ DOT # r1"
      using digits_split [of s] r0 by simp
    then have "s = t @ r"
      unfolding t r by (metis append.assoc append_Cons digits_split)
    moreover have "is_number_token t"
      unfolding is_number_token_iff t using ne list_all_takeWhile [of is_digit] by blast
    ultimately show "s = t @ r \<and> is_number_token t" ..
  next
    case False
    with assms have t: "t = ?ds" "?ds \<noteq> []" and r: "r = ?r0"
      by (auto simp: match_number_def Let_def split: if_splits)
    moreover have "list_all is_digit []"
      by simp
    ultimately have "is_number_token t"
      unfolding is_number_token_iff
      using list_all_takeWhile [of is_digit s] by (metis append_Nil)
    with t r show "s = t @ r \<and> is_number_token t"
      by simp
  qed
qed

lemma match_number_digit:
  "is_digit c \<Longrightarrow> match_number (c # cs) \<noteq> None"
  by (simp add: match_number_def Let_def)

lemma match_tokens_kinds:
  "t \<in> set (match_tokens s) \<Longrightarrow> is_number_token t \<or> is_symbol_token t"
proof (induction s rule: match_tokens.induct)
  case (2 c cs)
  then show ?case
    by (auto simp: is_symbol_token_def split: option.splits if_splits dest: match_number_sound(2))
qed simp

lemma match_tokens_subseq: "subseq (concat (match_tokens s)) s"
proof (induction s rule: match_tokens.induct)
  case (2 c cs)
  show ?case
  proof (cases "match_number (c # cs)")
    case None
    with 2 show ?thesis
      by (auto split: if_splits)
  next
    case (Some p)
    obtain t r where p: "p = (t, r)"
      by (cases p)
    with Some have eq: "c # cs = t @ r"
      by (auto dest: match_number_sound(1))
    from Some p have m: "match_tokens (c # cs) = t # match_tokens r"
      by simp
    from "2.IH"(3) Some p have "subseq (concat (match_tokens r)) r"
      by simp
    then have "subseq (concat (match_tokens (c # cs))) (t @ r)"
      by (simp only: m concat.simps list_emb_append_mono subseq_order.order_refl)
    then show ?thesis
      by (simp only: eq)
  qed
qed simp

lemma match_tokens_keeps:
  "filter (\<lambda>c. is_digit c \<or> is_opchar c) (concat (match_tokens s)) =
   filter (\<lambda>c. is_digit c \<or> is_opchar c) s"
proof (induction s rule: match_tokens.induct)
  case (2 c cs)
  show ?case
  proof (cases "match_number (c # cs)")
    case None
    with match_number_digit [of c cs] have "\<not> is_digit c"
      by blast
    with 2 None show ?thesis
      by (auto split: if_splits)
  next
    case (Some p)
    obtain t r where p: "p = (t, r)"
      by (cases p)
    with Some have eq: "c # cs = t @ r"
      by (auto dest: match_number_sound(1))
    from Some p have m: "match_tokens (c # cs) = t # match_tokens r"
      by simp
    from "2.IH"(3) Some p
    have "filter (\<lambda>c. is_digit c \<or> is_opchar c) (concat (match_tokens r)) =
      filter (\<lambda>c. is_digit c \<or> is_opchar c) r"
      by simp
    then have "filter (\<lambda>c. is_digit c \<or> is_opchar c) (concat (match_tokens (c # cs))) =
      filter (\<lambda>c. is_digit c \<or> is_opchar c) (t @ r)"
      by (simp only: m concat.simps filter_append)
    then show ?thesis
      by (simp only: eq)
  qed
qed simp

lemma spec_pattern_vs_token:
  assumes "is_number_token t"
  shows "spec_number_pattern t \<longleftrightarrow> hd t \<noteq> DOT"
proof -
  from assms obtain ds1 ds2 where d: "list_all is_digit ds1" "list_all is_digit ds2" "ds2 \<noteq> []"
    and t: "t = ds1 @ ds2 \<or> t = ds1 @ DOT # ds2"
    unfolding is_number_token_iff by blast
  from t show ?thesis
  proof
    assume t: "t = ds1 @ ds2"
    with d have all: "list_all is_digit t" and ne: "t \<noteq> []"
      by simp_all
    then have "is_digit (hd t)"
      by (cases t) simp_all
    then have "hd t \<noteq> DOT"
      by auto
    with all ne show ?thesis
      by (simp add: spec_number_pattern_def takeWhile_all_digits dropWhile_all_digits)
  next
    assume t: "t = ds1 @ DOT # ds2"
    show ?thesis
    proof (cases ds1)
      case Nil
      with t d show ?thesis
        by (simp add: spec_number_pattern_def)
    next
      case (Cons c cs)
      with d have "is_digit c"
        by simp
      then have "c \<noteq> DOT"
        by auto
      with t d Cons show ?thesis
        by (simp add: spec_number_pattern_def takeWhile_digits_point dropWhile_digits_point)
    qed
  qed
qed

lemma digits_then_clean:
  assumes "list_all is_digit ds" "rest = [] \<or> \<not> is_digit (hd rest)"
  shows "takeWhile is_digit (ds @ rest) = ds" and "dropWhile is_digit (ds @ rest) = rest"
proof -
  from assms(2) have "takeWhile is_digit rest = [] \<and> dropWhile is_digit rest = rest"
    by (cases rest) auto
  with assms(1) show "takeWhile is_digit (ds @ rest) = ds" "dropWhile is_digit (ds @ rest) = rest"
    by (induction ds) simp_all
qed

lemma match_number_literal:
  assumes "is_number_token l" "starts_clean rest"
  shows "match_number (l @ rest) = Some (l, rest)"
proof -
  from assms(1) obtain ds1 ds2 where d: "list_all is_digit ds1" "list_all is_digit ds2" "ds2 \<noteq> []"
    and l: "l = ds1 @ ds2 \<or> l = ds1 @ DOT # ds2"
    unfolding is_number_token_iff by blast
  from assms(2) have c: "rest = [] \<or> \<not> is_digit (hd rest)"
    by (auto simp: starts_clean_def)
  from l show ?thesis
  proof
    assume l: "l = ds1 @ ds2"
    with d have "list_all is_digit l" "l \<noteq> []"
      by simp_all
    with digits_then_clean [OF _ c, of l] assms(2) show ?thesis
      by (auto simp: match_number_def starts_clean_def)
  next
    assume l: "l = ds1 @ DOT # ds2"
    from d(3) obtain x xs where ds2: "ds2 = x # xs"
      by (cases ds2) auto
    with d(2) have x: "is_digit x"
      by simp
    have "takeWhile is_digit (l @ rest) = ds1" "dropWhile is_digit (l @ rest) = DOT # ds2 @ rest"
      using d(1) by (simp_all add: l takeWhile_digits_point dropWhile_digits_point)
    moreover have "takeWhile is_digit (ds2 @ rest) = ds2" "dropWhile is_digit (ds2 @ rest) = rest"
      using digits_then_clean [OF d(2) c] by simp_all
    ultimately show ?thesis
      using x by (simp add: match_number_def l ds2)
  qed
qed

lemma match_tokens_literal:
  assumes "is_number_token l" "starts_clean rest"
  shows "match_tokens (l @ rest) = l # match_tokens rest"
proof -
  from assms(1) have "l \<noteq> []"
    by (auto simp: is_number_token_def)
  then obtain c cs where "l @ rest = c # cs"
    by (cases l) auto
  with match_number_literal [OF assms] show ?thesis
    by (metis match_tokens.simps(2) option.simps(5) prod.simps(2))
qed

lemma match_tokens_symbol:
  assumes "is_opchar c"
  shows "match_tokens (c # rest) = [c] # match_tokens rest"
proof -
  from assms have "\<not> is_digit c" "c \<noteq> DOT"
    by (auto simp: is_opchar_def is_digit_def)
  then have "match_number (c # rest) = None"
    by (simp add: match_number_def)
  with assms show ?thesis
    by simp
qed

lemma kept_digits:
  "list_all is_digit ds \<Longrightarrow> kept_characters (ds @ xs) = ds @ kept_characters xs"
  by (induction ds) simp_all

lemma kept_number_token:
  assumes "is_number_token t"
  shows "kept_characters (t @ r) = t @ kept_characters r"
proof -
  from assms obtain ds1 ds2 where d: "list_all is_digit ds1" "list_all is_digit ds2" "ds2 \<noteq> []"
    and t: "t = ds1 @ ds2 \<or> t = ds1 @ DOT # ds2"
    unfolding is_number_token_iff by blast
  from t show ?thesis
  proof
    assume "t = ds1 @ ds2"
    with d show ?thesis
      by (simp add: kept_digits)
  next
    assume t: "t = ds1 @ DOT # ds2"
    from d(2,3) obtain x xs where ds2: "ds2 = x # xs" and x: "is_digit x"
      by (cases ds2) auto
    have "kept_characters (DOT # ds2 @ r) = DOT # kept_characters (ds2 @ r)"
      using x by (simp add: ds2)
    with d show ?thesis
      by (simp add: t kept_digits)
  qed
qed

lemma match_number_point:
  assumes "match_number (DOT # cs) = None"
  shows "\<not> (cs \<noteq> [] \<and> is_digit (hd cs))"
  using assms by (auto simp: match_number_def)

lemma match_tokens_characters: "concat (match_tokens s) = kept_characters s"
proof (induction s rule: match_tokens.induct)
  case (2 c cs)
  show ?case
  proof (cases "match_number (c # cs)")
    case None
    with match_number_digit [of c cs] have n: "\<not> is_digit c"
      by blast
    show ?thesis
    proof (cases "is_opchar c")
      case True
      with "2.IH"(1) None show ?thesis
        by simp
    next
      case False
      from None match_number_point [of cs] have "\<not> (c = DOT \<and> cs \<noteq> [] \<and> is_digit (hd cs))"
        by blast
      with "2.IH"(2) None False n show ?thesis
        by simp
    qed
  next
    case (Some p)
    obtain t r where p: "p = (t, r)"
      by (cases p)
    with Some have eq: "c # cs = t @ r" and t: "is_number_token t"
      by (auto dest: match_number_sound)
    from Some p have m: "match_tokens (c # cs) = t # match_tokens r"
      by simp
    from "2.IH"(3) Some p have "concat (match_tokens r) = kept_characters r"
      by simp
    then have "concat (match_tokens (c # cs)) = kept_characters (t @ r)"
      by (simp only: m concat.simps kept_number_token [OF t])
    then show ?thesis
      by (simp only: eq)
  qed
qed simp

lemma kept_characters_allowed:
  "list_all is_allowed s \<Longrightarrow> kept_characters s = drop_points s"
proof (induction s)
  case (Cons c cs)
  then have "is_digit c \<or> c = DOT \<or> is_opchar c" and IH: "kept_characters cs = drop_points cs"
    by (simp_all add: is_allowed_def)
  moreover have "\<not> is_opchar DOT"
    by (simp add: is_opchar_def)
  ultimately show ?case
    by auto
qed simp

text \<open>
  C7, as the code has it. Every token is a number token or the single character of an
  operator or a parenthesis. A number token is a possibly empty string of digits, then
  optionally a point, then one digit at least: it can begin with the point, and then it
  does not match the pattern of the specification, which a number token that begins with
  a digit does. The tokens come in the order of the string: their concatenation is the
  string with some characters left out, none of which is a digit, an operator or a
  parenthesis. It is exactly the digits, the operators, the parentheses and the points
  that a digit directly follows; so of a validated string the characters left out are
  exactly the points that no digit directly follows. A literal that neither a digit nor a
  point follows is one token, and so is an operator or a parenthesis.
\<close>

theorem tokens_of_tokenizer:
  "(\<forall>t \<in> set (match_tokens s). is_number_token t \<or> is_symbol_token t)
   \<and> (is_number_token t \<longleftrightarrow>
        (\<exists>ds1 ds2. list_all is_digit ds1 \<and> list_all is_digit ds2 \<and> ds2 \<noteq> []
           \<and> (t = ds1 @ ds2 \<or> t = ds1 @ DOT # ds2)))
   \<and> (is_number_token t \<longrightarrow> (spec_number_pattern t \<longleftrightarrow> hd t \<noteq> DOT))
   \<and> subseq (concat (match_tokens s)) s
   \<and> filter (\<lambda>c. is_digit c \<or> is_opchar c) (concat (match_tokens s)) =
       filter (\<lambda>c. is_digit c \<or> is_opchar c) s
   \<and> concat (match_tokens s) = kept_characters s
   \<and> (list_all is_allowed s \<longrightarrow> concat (match_tokens s) = drop_points s)
   \<and> (is_number_token t \<and> starts_clean rest \<longrightarrow>
        match_tokens (t @ rest) = t # match_tokens rest)
   \<and> (is_opchar c \<longrightarrow> match_tokens (c # rest) = [c] # match_tokens rest)"
proof -
  have 1: "list_all is_allowed s \<longrightarrow> concat (match_tokens s) = drop_points s"
    by (simp add: match_tokens_characters kept_characters_allowed)
  have 2: "is_number_token t \<and> starts_clean rest \<longrightarrow>
      match_tokens (t @ rest) = t # match_tokens rest"
    using match_tokens_literal [of t rest] by blast
  have 3: "is_opchar c \<longrightarrow> match_tokens (c # rest) = [c] # match_tokens rest"
    using match_tokens_symbol [of c rest] by blast
  from 1 2 3 match_tokens_kinds [of _ s] is_number_token_iff [of t] spec_pattern_vs_token [of t]
    match_tokens_subseq [of s] match_tokens_keeps [of s] match_tokens_characters [of s]
  show ?thesis
    by blast
qed

lemma tokens_example:
  "match_tokens (js ''1.2.3+.5*(4..)'') =
     [js ''1.2'', js ''.3'', js ''+'', js ''.5'', js ''*'', js ''('', js ''4'', js '')'']"
  by (simp add: match_number_def string_eval Let_def)

theorem tokens_of_tokenizer_witness:
  "list_all (\<lambda>t. is_number_token t \<or> is_symbol_token t) (match_tokens (js ''1.2.3+.5*(4..)''))
   \<and> is_number_token (js ''.3'') \<and> \<not> spec_number_pattern (js ''.3'')
   \<and> subseq (js ''1.2.3+.5*(4)'') (js ''1.2.3+.5*(4..)'')
   \<and> drop_points (js ''1.2.3+.5*(4..)'') = js ''1.2.3+.5*(4)''
   \<and> match_tokens (js ''.3'' @ js ''+.5'') = js ''.3'' # match_tokens (js ''+.5'')
   \<and> match_tokens (PLUS # js ''+.5'') = [PLUS] # match_tokens (js ''+.5'')"
proof -
  note w = tokens_of_tokenizer [where s = "js ''1.2.3+.5*(4..)''" and t = "js ''.3''"
      and rest = "js ''+.5''" and c = PLUS]
  have a: "list_all is_allowed (js ''1.2.3+.5*(4..)'')"
    by (simp add: string_eval)
  have n: "is_number_token (js ''.3'')" "starts_clean (js ''+.5'')" "is_opchar PLUS"
    by (simp_all add: is_number_token_def starts_clean_def string_eval)
  have c: "concat (match_tokens (js ''1.2.3+.5*(4..)'')) = js ''1.2.3+.5*(4)''"
    by (simp add: tokens_example) (simp add: js_def)
  from w have "\<forall>t \<in> set (match_tokens (js ''1.2.3+.5*(4..)'')). is_number_token t \<or> is_symbol_token t"
    by blast
  then have 1: "list_all (\<lambda>t. is_number_token t \<or> is_symbol_token t)
      (match_tokens (js ''1.2.3+.5*(4..)''))"
    by (simp only: list_all_iff)
  from w n(1) have "spec_number_pattern (js ''.3'') \<longleftrightarrow> hd (js ''.3'') \<noteq> DOT"
    by blast
  then have 2: "\<not> spec_number_pattern (js ''.3'')"
    by (simp add: js_def)
  from w have "subseq (concat (match_tokens (js ''1.2.3+.5*(4..)''))) (js ''1.2.3+.5*(4..)'')"
    by blast
  then have 3: "subseq (js ''1.2.3+.5*(4)'') (js ''1.2.3+.5*(4..)'')"
    by (simp only: c)
  from w a have "concat (match_tokens (js ''1.2.3+.5*(4..)'')) = drop_points (js ''1.2.3+.5*(4..)'')"
    by blast
  then have 4: "drop_points (js ''1.2.3+.5*(4..)'') = js ''1.2.3+.5*(4)''"
    by (simp only: c)
  from w n have 5: "match_tokens (js ''.3'' @ js ''+.5'') = js ''.3'' # match_tokens (js ''+.5'')"
    by blast
  from w n have 6: "match_tokens (PLUS # js ''+.5'') = [PLUS] # match_tokens (js ''+.5'')"
    by blast
  from 1 n(1) 2 3 4 5 6 show ?thesis
    by blast
qed

theorem number_token_pattern_counterexample:
  "match_tokens (js ''.5'') = [js ''.5''] \<and> is_number_token (js ''.5'')
   \<and> \<not> spec_number_pattern (js ''.5'') \<and> calculate (js ''.5'') = Inr (Fin 1 (- 1))"
  by (simp add: spec_number_pattern_def engine_eval string_eval number_eval)

section \<open>Parentheses in the conversion\<close>

lemma paren_count_simps [simp]:
  "paren_count [] = 0"
  "paren_count (t # ops) = (if t = [LPAREN] then 1 else 0) + paren_count ops"
  "paren_count (xs @ ys) = paren_count xs + paren_count ys"
  by (simp_all add: paren_count_def)

lemma paren_count_0: "paren_count ops = 0 \<longleftrightarrow> [LPAREN] \<notin> set ops"
  by (induction ops) auto

lemma pop_to_paren_eq:
  "pop_to_paren out ops =
     (out @ map Op (takeWhile (\<lambda>t. t \<noteq> [LPAREN]) ops), dropWhile (\<lambda>t. t \<noteq> [LPAREN]) ops)"
  by (induction ops arbitrary: out) simp_all

lemma pop_remaining_eq:
  "pop_remaining out ops =
     (if [LPAREN] \<in> set ops then Inl MismatchedParentheses else Inr (out @ map Op ops))"
  by (induction ops arbitrary: out) auto

lemma pop_operators_split:
  "\<exists>popped. ops = popped @ snd (pop_operators p out ops)
     \<and> fst (pop_operators p out ops) = out @ map Op popped
     \<and> [LPAREN] \<notin> set popped \<and> (\<forall>t \<in> set popped. operators t \<noteq> None)"
proof (induction ops arbitrary: out)
  case Nil
  show ?case
    by simp
next
  case (Cons t ops)
  show ?case
  proof (cases "t \<noteq> [LPAREN] \<and> (case operators t of Some d \<Rightarrow> p \<le> precedence d | None \<Rightarrow> False)")
    case True
    from Cons [of "out @ [Op t]"] obtain popped where
      "ops = popped @ snd (pop_operators p (out @ [Op t]) ops)"
      "fst (pop_operators p (out @ [Op t]) ops) = (out @ [Op t]) @ map Op popped"
      "[LPAREN] \<notin> set popped" "\<forall>t \<in> set popped. operators t \<noteq> None"
      by blast
    with True show ?thesis
      by (intro exI [of _ "t # popped"]) (auto split: option.splits)
  next
    case False
    then show ?thesis
      by (intro exI [of _ "[]"]) auto
  qed
qed

lemma pop_operators_paren_count:
  "paren_count (snd (pop_operators p out ops)) = paren_count ops"
proof -
  from pop_operators_split [of ops p out] obtain popped where
    "ops = popped @ snd (pop_operators p out ops)" "[LPAREN] \<notin> set popped"
    by blast
  then have "paren_count ops = paren_count popped + paren_count (snd (pop_operators p out ops))"
    by (metis paren_count_simps(3))
  with \<open>[LPAREN] \<notin> set popped\<close> show ?thesis
    by (simp add: paren_count_0)
qed

lemma number_token_not_symbol:
  "is_number_token t \<Longrightarrow> t \<noteq> [LPAREN] \<and> t \<noteq> [RPAREN] \<and> operators t = None"
  by (auto simp: is_number_token_def is_digit_def operators_def)

lemma symbol_token_cases:
  assumes "is_symbol_token t"
  shows "t = [LPAREN] \<or> t = [RPAREN] \<or> is_binary_operator t"
proof -
  from assms obtain c where "t = [c]" "is_opchar c"
    by (cases t) (auto simp: is_symbol_token_def)
  then show ?thesis
    by (auto simp: is_opchar_def is_binary_operator_def)
qed

lemma binary_operator_entry:
  assumes "is_binary_operator t"
  shows "\<exists>d. operators t = Some d \<and> precedence d = level t"
    and "t \<noteq> [LPAREN]" and "t \<noteq> [RPAREN]" and "\<not> is_number_token t"
  using assms
  by (auto simp: is_binary_operator_def operators_def level_def is_number_token_def is_digit_def)

lemma shunt_close:
  "shunt ([RPAREN] # ts) out ops =
     (case dropWhile (\<lambda>t. t \<noteq> [LPAREN]) ops of
        [] \<Rightarrow> Inl MismatchedParentheses
      | _ # ops' \<Rightarrow> shunt ts (out @ map Op (takeWhile (\<lambda>t. t \<noteq> [LPAREN]) ops)) ops')"
proof -
  define rest where "rest = dropWhile (\<lambda>t. t \<noteq> [LPAREN]) ops"
  have n: "\<not> is_number_token [RPAREN]"
    by (simp add: is_number_token_def is_digit_def)
  have p: "pop_to_paren out ops = (out @ map Op (takeWhile (\<lambda>t. t \<noteq> [LPAREN]) ops), rest)"
    by (simp add: pop_to_paren_eq rest_def)
  have "shunt ([RPAREN] # ts) out ops =
     (case rest of
        [] \<Rightarrow> Inl MismatchedParentheses
      | _ # ops' \<Rightarrow> shunt ts (out @ map Op (takeWhile (\<lambda>t. t \<noteq> [LPAREN]) ops)) ops')"
  proof (cases rest)
    case Nil
    with n p show ?thesis
      by simp
  next
    case (Cons t ops')
    then have "t = [LPAREN]"
      using hd_dropWhile [of "\<lambda>t. t \<noteq> [LPAREN]" ops] by (auto simp: rest_def)
    with n p Cons show ?thesis
      by simp
  qed
  then show ?thesis
    by (simp only: rest_def)
qed

lemma shunt_parens:
  assumes "\<forall>t \<in> set ts. is_number_token t \<or> is_symbol_token t"
  shows "case shunt ts out ops of
           Inl e \<Rightarrow> e = MismatchedParentheses \<and> paren_depth ts (paren_count ops) = None
         | Inr (out', ops') \<Rightarrow> paren_depth ts (paren_count ops) = Some (paren_count ops')"
  using assms
proof (induction ts arbitrary: out ops)
  case Nil
  show ?case
    by simp
next
  case (Cons t ts)
  then have IH: "case shunt ts out' ops' of
           Inl e \<Rightarrow> e = MismatchedParentheses \<and> paren_depth ts (paren_count ops') = None
         | Inr (out'', ops'') \<Rightarrow> paren_depth ts (paren_count ops') = Some (paren_count ops'')"
    for out' ops'
    by simp
  from Cons.prems consider (num) "is_number_token t" | (lp) "t = [LPAREN]" | (rp) "t = [RPAREN]"
    | (bin) "is_binary_operator t"
    using symbol_token_cases [of t] by auto
  then show ?case
  proof cases
    case num
    with number_token_not_symbol [OF num]
      IH [where out' = "out @ [Num (parseFloat t)]" and ops' = ops] show ?thesis
      by (auto split: sum.splits)
  next
    case lp
    then have "\<not> is_number_token t"
      by (simp add: is_number_token_def is_digit_def)
    with lp IH [where out' = out and ops' = "t # ops"] show ?thesis
      by (auto split: sum.splits)
  next
    case rp
    define rest where "rest = dropWhile (\<lambda>t. t \<noteq> [LPAREN]) ops"
    define taken where "taken = takeWhile (\<lambda>t. t \<noteq> [LPAREN]) ops"
    have sc: "shunt (t # ts) out ops =
      (case rest of [] \<Rightarrow> Inl MismatchedParentheses | _ # ops' \<Rightarrow> shunt ts (out @ map Op taken) ops')"
      unfolding rp rest_def taken_def by (rule shunt_close)
    have ops: "ops = taken @ rest"
      by (simp add: rest_def taken_def)
    have taken: "paren_count taken = 0"
      unfolding paren_count_0 taken_def by (auto dest: set_takeWhileD)
    show ?thesis
    proof (cases rest)
      case Nil
      with ops taken have "paren_count ops = 0"
        by simp
      with Nil rp show ?thesis
        unfolding sc by simp
    next
      case (Cons t' ops')
      then have "t' = [LPAREN]"
        using hd_dropWhile [of "\<lambda>t. t \<noteq> [LPAREN]" ops] by (auto simp: rest_def)
      with Cons ops taken have "paren_count ops = Suc (paren_count ops')"
        by simp
      with Cons rp IH [where out' = "out @ map Op taken" and ops' = ops']
      show ?thesis
        unfolding sc by (auto split: sum.splits)
    qed
  next
    case bin
    from binary_operator_entry [OF bin] obtain d where d: "operators t = Some d"
      and t: "t \<noteq> [LPAREN]" "t \<noteq> [RPAREN]" "\<not> is_number_token t"
      by blast
    obtain out' ops' where p: "pop_operators (precedence d) out ops = (out', ops')"
      by (cases "pop_operators (precedence d) out ops")
    with pop_operators_paren_count [of "precedence d" out ops]
    have "paren_count (t # ops') = paren_count ops"
      using t by simp
    with IH [where out' = out' and ops' = "t # ops'"] d t p show ?thesis
      by (auto simp del: paren_count_simps split: sum.splits)
  qed
qed

lemma toRPN_parens:
  "paren_depth (match_tokens expression) 0 \<noteq> Some 0 \<Longrightarrow>
     toRPN expression = Inl MismatchedParentheses"
  "paren_depth (match_tokens expression) 0 = Some 0 \<Longrightarrow> \<exists>rpn. toRPN expression = Inr rpn"
proof -
  have k: "\<forall>t \<in> set (match_tokens expression). is_number_token t \<or> is_symbol_token t"
    by (simp add: match_tokens_kinds)
  note s = shunt_parens [OF k, of "[]" "[]"]
  show "toRPN expression = Inl MismatchedParentheses"
    if "paren_depth (match_tokens expression) 0 \<noteq> Some 0"
    using s that by (auto simp: toRPN_def pop_remaining_eq paren_count_0 split: sum.splits)
  show "\<exists>rpn. toRPN expression = Inr rpn" if "paren_depth (match_tokens expression) 0 = Some 0"
    using s that by (auto simp: toRPN_def pop_remaining_eq paren_count_0 split: sum.splits)
qed

lemma toRPN_only_parens:
  assumes "toRPN expression = Inl e"
  shows "e = MismatchedParentheses"
proof -
  have "\<forall>t \<in> set (match_tokens expression). is_number_token t \<or> is_symbol_token t"
    by (simp add: match_tokens_kinds)
  from shunt_parens [OF this, of "[]" "[]"] assms show ?thesis
    by (auto simp: toRPN_def split: sum.splits dest: pop_remaining_error)
qed

lemma shunt_other_tokens:
  assumes "t \<noteq> [RPAREN]" "is_number_token t \<or> is_symbol_token t"
  shows "\<exists>out' ops'. shunt (t # ts) out ops = shunt ts out' ops'"
proof -
  from assms consider (num) "is_number_token t" | (lp) "t = [LPAREN]" | (bin) "is_binary_operator t"
    using symbol_token_cases [of t] by auto
  then show ?thesis
  proof cases
    case num
    then show ?thesis
      by auto
  next
    case lp
    then have "\<not> is_number_token t"
      by (simp add: is_number_token_def is_digit_def)
    with lp show ?thesis
      by auto
  next
    case bin
    from binary_operator_entry [OF bin] obtain d where "operators t = Some d"
      "t \<noteq> [LPAREN]" "t \<noteq> [RPAREN]" "\<not> is_number_token t"
      by blast
    then show ?thesis
      by (cases "pop_operators (precedence d) out ops") auto
  qed
qed

text \<open>
  C5. At a closing parenthesis the operators above the nearest opening parenthesis go
  to the output and that parenthesis is dropped; with no opening parenthesis on the stack
  the conversion fails with the mismatched parentheses error. No other token fails. At
  the end the conversion fails with the same error exactly when an opening parenthesis is
  left on the stack. So the conversion fails, and then with this error, exactly when the
  parentheses of the token sequence are not balanced, as those of \<^verbatim>\<open>(1+2\<close> are not.
\<close>

theorem mismatched_parentheses:
  "([LPAREN] \<notin> set ops \<longrightarrow> shunt ([RPAREN] # ts) out ops = Inl MismatchedParentheses)
   \<and> ([LPAREN] \<notin> set popped \<longrightarrow>
        shunt ([RPAREN] # ts) out (popped @ [LPAREN] # ops) = shunt ts (out @ map Op popped) ops)
   \<and> (t \<noteq> [RPAREN] \<and> (is_number_token t \<or> is_symbol_token t) \<longrightarrow>
        (\<exists>out' ops'. shunt (t # ts) out ops = shunt ts out' ops'))
   \<and> pop_remaining out ops =
        (if [LPAREN] \<in> set ops then Inl MismatchedParentheses else Inr (out @ map Op ops))
   \<and> (toRPN expression = Inl MismatchedParentheses \<longleftrightarrow>
        paren_depth (match_tokens expression) 0 \<noteq> Some 0)
   \<and> (toRPN expression = Inl e \<longrightarrow> e = MismatchedParentheses)
   \<and> (calculate expression = Inl MismatchedParentheses \<longleftrightarrow>
        valid_characters (strip_whitespace expression)
        \<and> paren_depth (match_tokens (strip_whitespace expression)) 0 \<noteq> Some 0)
   \<and> calculate (js ''(1+2'') = Inl MismatchedParentheses"
proof -
  have 1: "shunt ([RPAREN] # ts) out ops = Inl MismatchedParentheses" if "[LPAREN] \<notin> set ops"
  proof -
    from that have "dropWhile (\<lambda>t. t \<noteq> [LPAREN]) ops = []"
      by auto
    then show ?thesis
      by (simp only: shunt_close list.case)
  qed
  have 2: "shunt ([RPAREN] # ts) out (popped @ [LPAREN] # ops) = shunt ts (out @ map Op popped) ops"
    if "[LPAREN] \<notin> set popped"
  proof -
    from that have "dropWhile (\<lambda>t. t \<noteq> [LPAREN]) (popped @ [LPAREN] # ops) = [LPAREN] # ops"
      and "takeWhile (\<lambda>t. t \<noteq> [LPAREN]) (popped @ [LPAREN] # ops) = popped"
      by (induction popped) auto
    then show ?thesis
      by (simp only: shunt_close list.case)
  qed
  have 3: "\<exists>out' ops'. shunt (t # ts) out ops = shunt ts out' ops'"
    if "t \<noteq> [RPAREN] \<and> (is_number_token t \<or> is_symbol_token t)"
    using that shunt_other_tokens by blast
  note 4 = pop_remaining_eq [of out ops]
  have 5: "toRPN expression = Inl MismatchedParentheses \<longleftrightarrow>
      paren_depth (match_tokens expression) 0 \<noteq> Some 0"
    using toRPN_parens [of expression] by auto
  have 6: "e = MismatchedParentheses" if "toRPN expression = Inl e"
    using that by (rule toRPN_only_parens)
  have 7: "calculate expression = Inl MismatchedParentheses \<longleftrightarrow>
      valid_characters (strip_whitespace expression)
      \<and> paren_depth (match_tokens (strip_whitespace expression)) 0 \<noteq> Some 0"
  proof (cases "toRPN (strip_whitespace expression)")
    case (Inl err)
    with toRPN_only_parens [OF this] toRPN_parens(2) [of "strip_whitespace expression"]
    show ?thesis
      by (auto simp: calculate_def Let_def)
  next
    case (Inr rpn)
    with toRPN_parens(1) [of "strip_whitespace expression"]
    have "paren_depth (match_tokens (strip_whitespace expression)) 0 = Some 0"
      by auto
    with Inr show ?thesis
      by (auto simp: calculate_def Let_def dest: evaluateRPN_error)
  qed
  have 8: "calculate (js ''(1+2'') = Inl MismatchedParentheses"
    by (simp add: engine_eval string_eval)
  from 1 2 3 4 5 6 7 8 show ?thesis
    by blast
qed

theorem mismatched_parentheses_witness:
  "shunt [[RPAREN]] [] [[PLUS]] = Inl MismatchedParentheses
   \<and> shunt [[RPAREN]] [] ([[PLUS]] @ [LPAREN] # [[STAR]]) = shunt [] ([] @ map Op [[PLUS]]) [[STAR]]
   \<and> toRPN (js ''1)'') = Inl MismatchedParentheses
   \<and> paren_depth (match_tokens (js ''1)'')) 0 = None"
proof -
  note m = mismatched_parentheses [where ops = "[[PLUS]]" and ts = "[]" and out = "[]"
      and popped = "[[PLUS]]" and t = "[PLUS]" and expression = "js ''1)''" and e = TypeError]
  note n = mismatched_parentheses [where ops = "[[STAR]]" and ts = "[]" and out = "[]"
      and popped = "[[PLUS]]" and t = "[PLUS]" and expression = "js ''1)''" and e = TypeError]
  have a: "[LPAREN] \<notin> set [[PLUS]]"
    by simp
  have d: "paren_depth (match_tokens (js ''1)'')) 0 = None"
    by (simp add: match_number_def string_eval Let_def)
  from m a have 1: "shunt [[RPAREN]] [] [[PLUS]] = Inl MismatchedParentheses"
    by blast
  from n a have 2: "shunt [[RPAREN]] [] ([[PLUS]] @ [LPAREN] # [[STAR]]) =
      shunt [] ([] @ map Op [[PLUS]]) [[STAR]]"
    by blast
  from m d have 3: "toRPN (js ''1)'') = Inl MismatchedParentheses"
    by simp
  from 1 2 3 d show ?thesis
    by blast
qed

section \<open>The two copies of the algorithm\<close>

lemma script_precedence_operators: "script_precedence t = map_option precedence (operators t)"
  by (simp add: script_precedence_def operators_def)

lemma script_pop_to_paren_eq: "script_pop_to_paren out ops = pop_to_paren out ops"
  by (induction ops arbitrary: out) simp_all

lemma script_pop_remaining_eq: "script_pop_remaining out ops = pop_remaining out ops"
  by (induction ops arbitrary: out) simp_all

lemma script_pop_operators_eq:
  "operators token = Some d \<Longrightarrow>
     script_pop_operators token out ops = pop_operators (precedence d) out ops"
  by (induction ops arbitrary: out)
    (auto simp: script_precedence_operators js_ge_def split: option.splits)

lemma script_shunt_eq:
  assumes "\<forall>t \<in> set ts. is_number_token t \<or> is_symbol_token t"
  shows "script_shunt ts out ops = shunt ts out ops"
  using assms
proof (induction ts arbitrary: out ops)
  case Nil
  show ?case
    by simp
next
  case (Cons t ts)
  then have IH: "script_shunt ts out' ops' = shunt ts out' ops'" for out' ops'
    by simp
  from Cons.prems consider (num) "is_number_token t" | (lp) "t = [LPAREN]" | (rp) "t = [RPAREN]"
    | (bin) "is_binary_operator t"
    using symbol_token_cases [of t] by auto
  then show ?case
  proof cases
    case bin
    from binary_operator_entry [OF bin] obtain d where "operators t = Some d"
      "t \<noteq> [LPAREN]" "t \<noteq> [RPAREN]" "\<not> is_number_token t"
      by blast
    then show ?thesis
      by (simp add: IH script_pop_operators_eq)
  qed (auto simp: IH script_pop_to_paren_eq is_number_token_def is_digit_def
      split: prod.splits list.splits)
qed

lemma operators_only_simps [simp]:
  "operators_only []"
  "operators_only (Num n # out) = operators_only out"
  "operators_only (Op t # out) \<longleftrightarrow> is_binary_operator t \<and> operators_only out"
  "operators_only (xs @ ys) \<longleftrightarrow> operators_only xs \<and> operators_only ys"
  by (auto simp: operators_only_def)

lemma operators_only_map: "operators_only (map Op ts) \<longleftrightarrow> (\<forall>t \<in> set ts. is_binary_operator t)"
  by (auto simp: operators_only_def)

lemma operators_binary: "operators t \<noteq> None \<longleftrightarrow> is_binary_operator t"
  by (auto simp: operators_def is_binary_operator_def)

lemma shunt_operators_only:
  assumes "\<forall>t \<in> set ts. is_number_token t \<or> is_symbol_token t"
    and "shunt ts out ops = Inr (out', ops')"
    and "operators_only out" "\<forall>t \<in> set ops. t = [LPAREN] \<or> is_binary_operator t"
  shows "operators_only out' \<and> (\<forall>t \<in> set ops'. t = [LPAREN] \<or> is_binary_operator t)"
  using assms
proof (induction ts arbitrary: out ops)
  case Nil
  then show ?case
    by simp
next
  case (Cons t ts)
  from Cons.prems(1) consider (num) "is_number_token t" | (lp) "t = [LPAREN]" | (rp) "t = [RPAREN]"
    | (bin) "is_binary_operator t"
    using symbol_token_cases [of t] by auto
  then show ?case
  proof cases
    case num
    with Cons.prems have "shunt ts (out @ [Num (parseFloat t)]) ops = Inr (out', ops')"
      by simp
    with Cons.prems show ?thesis
      by (intro Cons.IH [of "out @ [Num (parseFloat t)]" ops]) simp_all
  next
    case lp
    then have "\<not> is_number_token t"
      by (simp add: is_number_token_def is_digit_def)
    with lp Cons.prems have "shunt ts out (t # ops) = Inr (out', ops')"
      by simp
    with lp Cons.prems show ?thesis
      by (intro Cons.IH [of out "t # ops"]) simp_all
  next
    case rp
    define rest where "rest = dropWhile (\<lambda>t. t \<noteq> [LPAREN]) ops"
    define taken where "taken = takeWhile (\<lambda>t. t \<noteq> [LPAREN]) ops"
    have ops: "ops = taken @ rest"
      by (simp add: rest_def taken_def)
    from Cons.prems(2) obtain t' rest' where rest: "rest = t' # rest'"
      and s: "shunt ts (out @ map Op taken) rest' = Inr (out', ops')"
      unfolding rp shunt_close rest_def [symmetric] taken_def [symmetric]
      by (cases rest) simp_all
    have "[LPAREN] \<notin> set taken"
      unfolding taken_def by (auto dest: set_takeWhileD)
    with ops Cons.prems(4) have "\<forall>t \<in> set taken. is_binary_operator t"
      by (metis Un_iff set_append)
    moreover from ops rest Cons.prems(4) have "\<forall>t \<in> set rest'. t = [LPAREN] \<or> is_binary_operator t"
      by (metis Un_iff list.set_intros(2) set_append)
    ultimately show ?thesis
      using s Cons.prems(1,3)
      by (intro Cons.IH [of "out @ map Op taken" rest']) (simp_all add: operators_only_map)
  next
    case bin
    from binary_operator_entry [OF bin] obtain d where d: "operators t = Some d"
      and t: "t \<noteq> [LPAREN]" "t \<noteq> [RPAREN]" "\<not> is_number_token t"
      by blast
    from pop_operators_split [of ops "precedence d" out] obtain popped where
      p: "ops = popped @ snd (pop_operators (precedence d) out ops)"
      "fst (pop_operators (precedence d) out ops) = out @ map Op popped"
      "\<forall>t \<in> set popped. operators t \<noteq> None"
      by blast
    from Cons.prems(2) d t
    have s: "shunt ts (out @ map Op popped) (t # snd (pop_operators (precedence d) out ops)) = Inr (out', ops')"
      by (simp add: p(2) [symmetric] split: prod.splits)
    from p(1) Cons.prems(4)
    have "\<forall>t \<in> set (snd (pop_operators (precedence d) out ops)). t = [LPAREN] \<or> is_binary_operator t"
      by (metis Un_iff set_append)
    moreover from p(3) have "\<forall>t \<in> set popped. is_binary_operator t"
      unfolding operators_binary .
    ultimately show ?thesis
      using s bin Cons.prems(1,3)
      by (intro Cons.IH [of "out @ map Op popped" "t # snd (pop_operators (precedence d) out ops)"])
        (simp_all add: operators_only_map)
  qed
qed

lemma toRPN_operators_only:
  assumes "toRPN expression = Inr rpn"
  shows "operators_only rpn"
proof -
  have k: "\<forall>t \<in> set (match_tokens expression). is_number_token t \<or> is_symbol_token t"
    by (simp add: match_tokens_kinds)
  from assms obtain out ops where s: "shunt (match_tokens expression) [] [] = Inr (out, ops)"
    and r: "pop_remaining out ops = Inr rpn"
    by (auto simp: toRPN_def split: sum.splits)
  from shunt_operators_only [OF k s] have "operators_only out"
    "\<forall>t \<in> set ops. t = [LPAREN] \<or> is_binary_operator t"
    by simp_all
  with r show ?thesis
    by (auto simp: pop_remaining_eq operators_only_map split: if_splits)
qed

lemma script_eval_loop_eq:
  "operators_only rpn \<Longrightarrow> script_eval_loop rpn stack = eval_loop rpn stack"
proof (induction rpn stack rule: eval_loop.induct)
  case (3 token rest b a stack)
  then show ?case
    by (auto simp: is_binary_operator_def operators_def)
qed simp_all

text \<open>
  C8. The engine and the standalone copy compute the same function: for every input,
  \<^verbatim>\<open>CalculatorEngine.calculate\<close> and \<^verbatim>\<open>safeCalculate\<close> followed by the formatting of
  \<^verbatim>\<open>calculateResult\<close> return the same number or fail with the same error.
\<close>

theorem engine_and_script_agree: "calculate expression = script_result expression"
proof (cases "valid_characters (strip_whitespace expression)")
  case False
  then show ?thesis
    by (simp add: calculate_def script_result_def safeCalculate_def)
next
  case True
  let ?e = "strip_whitespace expression"
  have k: "\<forall>t \<in> set (match_tokens ?e). is_number_token t \<or> is_symbol_token t"
    by (simp add: match_tokens_kinds)
  show ?thesis
  proof (cases "toRPN ?e")
    case (Inl err)
    with True show ?thesis
      by (auto simp: calculate_def script_result_def safeCalculate_def toRPN_def
          script_shunt_eq [OF k] script_pop_remaining_eq split: sum.splits)
  next
    case (Inr rpn)
    from toRPN_operators_only [OF this] have "script_eval_loop rpn [] = eval_loop rpn []"
      by (rule script_eval_loop_eq)
    with True Inr show ?thesis
      by (auto simp: calculate_def script_result_def safeCalculate_def toRPN_def
          script_shunt_eq [OF k] script_pop_remaining_eq evaluateRPN_def format_result_def
          split: sum.splits)
  qed
qed

theorem engine_and_script_agree_witness:
  "script_result (js ''0.1+0.2'') = Inr (Fin 5404319552844595 (- 54))
   \<and> script_result (js ''(1+2'') = Inl MismatchedParentheses"
  using engine_and_script_agree [of "js ''0.1+0.2''", symmetric]
    engine_and_script_agree [of "js ''(1+2''", symmetric]
  by (simp add: engine_eval string_eval number_eval)

section \<open>Expressions through the pipeline\<close>

subsection \<open>Tokens of an expression\<close>

lemma opchar_clean: "is_opchar c \<Longrightarrow> starts_clean (c # rest)"
  by (auto simp: starts_clean_def is_opchar_def is_digit_def)

lemma match_tokens_expr:
  "well_formed e \<Longrightarrow> starts_clean rest \<Longrightarrow>
     match_tokens (show_expr e @ rest) = expr_tokens e @ match_tokens rest"
proof (induction e arbitrary: rest)
  case (Lit l)
  then show ?case
    by (simp add: match_tokens_literal)
next
  case (Paren e)
  have o: "is_opchar LPAREN" "is_opchar RPAREN"
    by (simp_all add: is_opchar_def)
  from Paren.prems have "match_tokens (show_expr e @ RPAREN # rest) =
      expr_tokens e @ match_tokens (RPAREN # rest)"
    by (intro Paren.IH) (simp_all add: opchar_clean o)
  then show ?case
    by (simp add: match_tokens_symbol o del: match_tokens.simps)
next
  case (Bin l opr r)
  from Bin.prems obtain c where c: "opr = [c]" "is_opchar c"
    by (auto simp: is_binary_operator_def is_opchar_def)
  from Bin.prems have "match_tokens (show_expr l @ c # show_expr r @ rest) =
      expr_tokens l @ match_tokens (c # show_expr r @ rest)"
    by (intro Bin.IH(1)) (simp_all add: opchar_clean c)
  moreover from Bin.prems have "match_tokens (show_expr r @ rest) =
      expr_tokens r @ match_tokens rest"
    by (intro Bin.IH(2)) simp_all
  ultimately show ?case
    by (simp add: c match_tokens_symbol del: match_tokens.simps)
qed

lemma show_expr_allowed: "well_formed e \<Longrightarrow> list_all is_allowed (show_expr e) \<and> show_expr e \<noteq> []"
proof (induction e)
  case (Lit l)
  then obtain ds1 ds2 where "list_all is_digit ds1" "list_all is_digit ds2" "ds2 \<noteq> []"
    "l = ds1 @ ds2 \<or> l = ds1 @ DOT # ds2"
    unfolding well_formed.simps is_number_token_iff by blast
  then show ?case
    by (auto simp: list_all_iff is_allowed_def)
next
  case (Paren e)
  then show ?case
    by (simp add: is_allowed_def is_opchar_def)
next
  case (Bin l opr r)
  then show ?case
    by (auto simp: is_allowed_def is_opchar_def is_binary_operator_def)
qed

subsection \<open>Conversion of an expression\<close>

lemma stops_simps [simp]:
  "stops k []"
  "stops k ([LPAREN] # ops)"
  by (simp_all add: stops_def)

lemma stops_operator: "is_binary_operator t \<Longrightarrow> stops k (t # ops) \<longleftrightarrow> level t < k"
  using binary_operator_entry [of t] by (auto simp: stops_def)

lemma stops_mono: "stops k ops \<Longrightarrow> k \<le> k' \<Longrightarrow> stops k' ops"
  by (auto simp: stops_def split: list.splits option.splits)

lemma pop_operators_stops: "stops k ops \<Longrightarrow> pop_operators k out ops = (out, ops)"
  by (cases ops) (auto simp: stops_def split: option.splits)

lemma pop_operators_all:
  assumes "\<forall>t \<in> set popped. is_binary_operator t \<and> k \<le> level t" "stops k ops"
  shows "pop_operators k out (popped @ ops) = (out @ map Op popped, ops)"
  using assms
proof (induction popped arbitrary: out)
  case Nil
  then show ?case
    by (simp add: pop_operators_stops)
next
  case (Cons t popped)
  then have "is_binary_operator t" "k \<le> level t"
    by simp_all
  with binary_operator_entry [of t] obtain d where "operators t = Some d" "precedence d = level t"
    "t \<noteq> [LPAREN]"
    by blast
  with Cons \<open>k \<le> level t\<close> show ?case
    by simp
qed

lemma shunt_number:
  "is_number_token t \<Longrightarrow> shunt (t # ts) out ops = shunt ts (out @ [Num (parseFloat t)]) ops"
  by simp

lemma shunt_open: "shunt ([LPAREN] # ts) out ops = shunt ts out ([LPAREN] # ops)"
  by (simp add: is_number_token_def is_digit_def)

lemma shunt_close_popped:
  assumes "[LPAREN] \<notin> set popped"
  shows "shunt ([RPAREN] # ts) out (popped @ [LPAREN] # ops) = shunt ts (out @ map Op popped) ops"
proof -
  from assms have "dropWhile (\<lambda>t. t \<noteq> [LPAREN]) (popped @ [LPAREN] # ops) = [LPAREN] # ops"
    and "takeWhile (\<lambda>t. t \<noteq> [LPAREN]) (popped @ [LPAREN] # ops) = popped"
    by (induction popped) auto
  then show ?thesis
    by (simp only: shunt_close list.case)
qed

lemma shunt_operator:
  assumes "is_binary_operator t"
  shows "shunt (t # ts) out ops =
     (case pop_operators (level t) out ops of (out', ops') \<Rightarrow> shunt ts out' (t # ops'))"
proof -
  from binary_operator_entry [OF assms] obtain d where "operators t = Some d"
    "precedence d = level t" "t \<noteq> [LPAREN]" "t \<noteq> [RPAREN]" "\<not> is_number_token t"
    by blast
  then show ?thesis
    by simp
qed

lemma shunt_expr:
  "well_formed e \<Longrightarrow> stops (binding e) ops \<Longrightarrow>
     \<exists>front pending.
       (\<forall>ts out. shunt (expr_tokens e @ ts) out ops = shunt ts (out @ front) (pending @ ops))
       \<and> front @ map Op pending = postfix e
       \<and> (\<forall>t \<in> set pending. is_binary_operator t \<and> binding e \<le> level t)"
proof (induction e arbitrary: ops)
  case (Lit l)
  then have "\<forall>ts out. shunt (expr_tokens (Lit l) @ ts) out ops =
      shunt ts (out @ [Num (parseFloat l)]) ([] @ ops)"
    by (simp add: shunt_number del: shunt.simps)
  then show ?case
    by (intro exI [of _ "[Num (parseFloat l)]"] exI [of _ "[]"]) simp
next
  case (Paren e)
  from Paren.prems have "well_formed e" "stops (binding e) ([LPAREN] # ops)"
    by simp_all
  from Paren.IH [OF this] obtain front pending where
    s: "\<And>ts out. shunt (expr_tokens e @ ts) out ([LPAREN] # ops) =
         shunt ts (out @ front) (pending @ [LPAREN] # ops)"
    and p: "front @ map Op pending = postfix e"
    and b: "\<forall>t \<in> set pending. is_binary_operator t \<and> binding e \<le> level t"
    by blast
  from b have "[LPAREN] \<notin> set pending"
    by (auto simp: is_binary_operator_def)
  then have "shunt (expr_tokens (Paren e) @ ts) out ops =
      shunt ts (out @ front @ map Op pending) ([] @ ops)" for ts out
    by (simp add: shunt_open s shunt_close_popped del: shunt.simps)
  with p show ?case
    by (intro exI [of _ "front @ map Op pending"] exI [of _ "[]"]) simp
next
  case (Bin l opr r)
  from Bin.prems have wf: "well_formed l" "well_formed r" "is_binary_operator opr"
    and lv: "level opr \<le> binding l" "level opr < binding r"
    and st: "stops (level opr) ops"
    by simp_all
  from st lv(1) have "stops (binding l) ops"
    by (rule stops_mono)
  from Bin.IH(1) [OF wf(1) this] obtain front1 pending1 where
    s1: "\<And>ts out. shunt (expr_tokens l @ ts) out ops = shunt ts (out @ front1) (pending1 @ ops)"
    and p1: "front1 @ map Op pending1 = postfix l"
    and b1: "\<forall>t \<in> set pending1. is_binary_operator t \<and> binding l \<le> level t"
    by blast
  from b1 lv(1) have "\<forall>t \<in> set pending1. is_binary_operator t \<and> level opr \<le> level t"
    by auto
  from pop_operators_all [OF this st]
  have pop: "pop_operators (level opr) out (pending1 @ ops) = (out @ map Op pending1, ops)" for out .
  from wf(3) lv(2) have "stops (binding r) (opr # ops)"
    by (simp add: stops_operator)
  from Bin.IH(2) [OF wf(2) this] obtain front2 pending2 where
    s2: "\<And>ts out. shunt (expr_tokens r @ ts) out (opr # ops) =
          shunt ts (out @ front2) (pending2 @ opr # ops)"
    and p2: "front2 @ map Op pending2 = postfix r"
    and b2: "\<forall>t \<in> set pending2. is_binary_operator t \<and> binding r \<le> level t"
    by blast
  have "shunt (expr_tokens (Bin l opr r) @ ts) out ops =
      shunt ts (out @ postfix l @ front2) ((pending2 @ [opr]) @ ops)" for ts out
  proof -
    have "shunt (expr_tokens (Bin l opr r) @ ts) out ops =
        shunt (opr # expr_tokens r @ ts) (out @ front1) (pending1 @ ops)"
      using s1 [of "opr # expr_tokens r @ ts" out] by simp
    also have "\<dots> = shunt (expr_tokens r @ ts) (out @ front1 @ map Op pending1) (opr # ops)"
      by (simp only: shunt_operator [OF wf(3)] pop prod.case append_assoc)
    also have "\<dots> = shunt ts (out @ postfix l @ front2) ((pending2 @ [opr]) @ ops)"
      by (simp add: s2 p1)
    finally show ?thesis .
  qed
  moreover have "(postfix l @ front2) @ map Op (pending2 @ [opr]) = postfix (Bin l opr r)"
    using p2 by (metis append.assoc list.simps(8,9) map_append postfix.simps(3))
  moreover from b2 lv(2) wf(3) have
    "\<forall>t \<in> set (pending2 @ [opr]). is_binary_operator t \<and> binding (Bin l opr r) \<le> level t"
    by auto
  ultimately show ?case
    by blast
qed

lemma toRPN_expr:
  assumes "well_formed e"
  shows "toRPN (show_expr e) = Inr (postfix e)"
proof -
  have m: "match_tokens (show_expr e) = expr_tokens e"
    using match_tokens_expr [OF assms, of "[]"] by (simp add: starts_clean_def)
  from shunt_expr [OF assms, of "[]"] obtain front pending where
    s: "\<And>ts out. shunt (expr_tokens e @ ts) out [] = shunt ts (out @ front) (pending @ [])"
    and p: "front @ map Op pending = postfix e"
    and b: "\<forall>t \<in> set pending. is_binary_operator t \<and> binding e \<le> level t"
    by auto
  from b have "[LPAREN] \<notin> set pending"
    by (auto simp: is_binary_operator_def)
  with s [of "[]" "[]"] p show ?thesis
    by (simp add: toRPN_def pop_remaining_eq m)
qed

subsection \<open>Evaluation of a converted expression\<close>

lemma operators_apply:
  assumes "is_binary_operator opr"
  shows "\<exists>d. operators opr = Some d \<and> operation d a b = apply_operator opr a b"
  using assms by (auto simp: is_binary_operator_def operators_def apply_operator_def)

lemma eval_loop_postfix:
  "well_formed e \<Longrightarrow>
     eval_loop (postfix e @ rest) stack =
       (case expr_value e of Inl err \<Rightarrow> Inl err | Inr v \<Rightarrow> eval_loop rest (v # stack))"
proof (induction e arbitrary: rest stack)
  case (Bin l opr r)
  then have wf: "well_formed l" "well_formed r" "is_binary_operator opr"
    by simp_all
  show ?case
  proof (cases "expr_value l")
    case (Inl err)
    with Bin.IH(1) [OF wf(1)] show ?thesis
      by simp
  next
    case a: (Inr a)
    show ?thesis
    proof (cases "expr_value r")
      case (Inl err)
      with a Bin.IH(1) [OF wf(1)] Bin.IH(2) [OF wf(2)] show ?thesis
        by simp
    next
      case b: (Inr b)
      from operators_apply [OF wf(3), of a b] obtain d where
        "operators opr = Some d" "operation d a b = apply_operator opr a b"
        by blast
      with a b Bin.IH(1) [OF wf(1)] Bin.IH(2) [OF wf(2)] show ?thesis
        by simp
    qed
  qed
qed simp_all

lemma expr_value_error:
  "expr_value e = Inl err \<Longrightarrow> err = DivisionByZero"
  by (induction e) (auto simp: apply_operator_def split: sum.splits if_splits)

text \<open>
  C1, as the code has it. Let the input, without its white space, be the string of an
  infix expression of number literals, the four binary operators and parentheses, read
  with standard precedence and with operators of equal precedence grouped from the left.
  When no divisor of the expression is zero, the calculation returns the value of the
  expression, unchanged when it is an integer and otherwise rounded to eight decimals;
  when a divisor is zero, it fails with the division by zero error.
\<close>

theorem precedence_evaluation:
  assumes "well_formed e" and "strip_whitespace s = show_expr e"
  shows "calculate s = (case expr_value e of Inl err \<Rightarrow> Inl err | Inr v \<Rightarrow> Inr (format_result v))
    \<and> (\<forall>err. expr_value e = Inl err \<longrightarrow> err = DivisionByZero)"
proof -
  from show_expr_allowed [OF assms(1)] assms(2) have "valid_characters (strip_whitespace s)"
    by (simp add: valid_characters_def)
  moreover have "toRPN (strip_whitespace s) = Inr (postfix e)"
    using toRPN_expr [OF assms(1)] assms(2) by simp
  moreover have "eval_loop (postfix e) [] =
      (case expr_value e of Inl err \<Rightarrow> Inl err | Inr v \<Rightarrow> Inr [v])"
    using eval_loop_postfix [OF assms(1), of "[]" "[]"] by (simp split: sum.splits)
  ultimately have "calculate s =
      (case expr_value e of Inl err \<Rightarrow> Inl err | Inr v \<Rightarrow> Inr (format_result v))"
    by (simp add: calculate_def evaluateRPN_def split: sum.splits)
  then show ?thesis
    using expr_value_error [of e] by blast
qed

theorem precedence_evaluation_witness:
  "calculate (js ''2+2*3'') = Inr (Fin 1 3) \<and> calculate (js ''8 - 3 - 2'') = Inr (Fin 3 0)
   \<and> calculate (js ''(8-3)-2*(1+1)/4'') = Inr (Fin 1 2)"
  using
    precedence_evaluation [of "Bin (Lit (js ''2'')) (js ''+'') (Bin (Lit (js ''2'')) (js ''*'') (Lit (js ''3'')))"
      "js ''2+2*3''"]
    precedence_evaluation [of "Bin (Bin (Lit (js ''8'')) (js ''-'') (Lit (js ''3''))) (js ''-'') (Lit (js ''2''))"
      "js ''8 - 3 - 2''"]
    precedence_evaluation [of
      "Bin (Paren (Bin (Lit (js ''8'')) (js ''-'') (Lit (js ''3'')))) (js ''-'')
         (Bin (Bin (Lit (js ''2'')) (js ''*'') (Paren (Bin (Lit (js ''1'')) (js ''+'') (Lit (js ''1'')))))
            (js ''/'') (Lit (js ''4'')))"
      "js ''(8-3)-2*(1+1)/4''"]
  by (simp add: strip_whitespace_def is_number_token_def is_binary_operator_def level_def
      apply_operator_def format_result_def string_eval number_eval)

theorem precedence_evaluation_counterexample:
  "well_formed (Bin (Lit (js ''5'')) (js ''/'') (Lit (js ''0'')))
   \<and> show_expr (Bin (Lit (js ''5'')) (js ''/'') (Lit (js ''0''))) = js ''5/0''
   \<and> calculate (js ''5/0'') = Inl DivisionByZero
   \<and> well_formed (Bin (Lit (js ''1'')) (js ''/'') (Lit (js ''3'')))
   \<and> show_expr (Bin (Lit (js ''1'')) (js ''/'') (Lit (js ''3''))) = js ''1/3''
   \<and> expr_value (Bin (Lit (js ''1'')) (js ''/'') (Lit (js ''3''))) = Inr (Fin 6004799503160661 (- 54))
   \<and> calculate (js ''1/3'') = Inr (Fin 3002399721556333 (- 53))"
  by (simp add: is_binary_operator_def level_def apply_operator_def engine_eval string_eval
      number_eval)

section \<open>Operands and operators\<close>

lemma balance_append [simp]: "balance (xs @ ys) = balance xs + balance ys"
  by (induction xs rule: balance.induct) simp_all

lemma balance_map_Op [simp]: "balance (map Op ts) = - int (length ts)"
  by (induction ts) simp_all

lemma token_balance_append [simp]: "token_balance (xs @ ys) = token_balance xs + token_balance ys"
  by (induction xs) simp_all

lemma waiting_simps [simp]:
  "waiting [] = 0"
  "waiting (t # ops) = (if t = [LPAREN] then 0 else 1) + waiting ops"
  "waiting (xs @ ys) = waiting xs + waiting ys"
  by (simp_all add: waiting_def)

lemma waiting_all: "[LPAREN] \<notin> set ts \<Longrightarrow> waiting ts = int (length ts)"
  by (induction ts) auto

lemma eval_loop_balance:
  "eval_loop rpn stack = Inr stack' \<Longrightarrow> int (length stack') = int (length stack) + balance rpn"
proof (induction rpn stack rule: eval_loop.induct)
  case (3 token rest b a stack)
  then show ?case
    by (auto split: option.splits sum.splits)
qed simp_all

lemma evaluateRPN_balance: "evaluateRPN rpn = Inr v \<Longrightarrow> balance rpn = 1"
  by (auto simp: evaluateRPN_def split: sum.splits if_splits dest: eval_loop_balance)

lemma shunt_balance:
  "shunt ts out ops = Inr (out', ops') \<Longrightarrow>
     balance out' - waiting ops' = balance out - waiting ops + token_balance ts"
proof (induction ts arbitrary: out ops)
  case Nil
  then show ?case
    by simp
next
  case (Cons t ts)
  consider (num) "is_number_token t" | (lp) "\<not> is_number_token t" "t = [LPAREN]"
    | (rp) "\<not> is_number_token t" "t = [RPAREN]"
    | (other) "\<not> is_number_token t" "t \<noteq> [LPAREN]" "t \<noteq> [RPAREN]"
    by blast
  then show ?case
  proof cases
    case num
    with Cons.prems Cons.IH [of "out @ [Num (parseFloat t)]" ops] show ?thesis
      by simp
  next
    case lp
    with Cons.prems Cons.IH [of out "t # ops"] show ?thesis
      by simp
  next
    case rp
    define rest where "rest = dropWhile (\<lambda>t. t \<noteq> [LPAREN]) ops"
    define taken where "taken = takeWhile (\<lambda>t. t \<noteq> [LPAREN]) ops"
    have ops: "ops = taken @ rest"
      by (simp add: rest_def taken_def)
    from Cons.prems obtain t' rest' where rest: "rest = t' # rest'"
      and s: "shunt ts (out @ map Op taken) rest' = Inr (out', ops')"
      unfolding rp shunt_close rest_def [symmetric] taken_def [symmetric]
      by (cases rest) simp_all
    from rest have t': "t' = [LPAREN]"
      using hd_dropWhile [of "\<lambda>t. t \<noteq> [LPAREN]" ops] by (auto simp: rest_def)
    have "[LPAREN] \<notin> set taken"
      unfolding taken_def by (auto dest: set_takeWhileD)
    then have "waiting taken = int (length taken)"
      by (rule waiting_all)
    with ops rest t' have "waiting ops = int (length taken) + waiting rest'"
      by (metis add_0 waiting_simps(2,3))
    with Cons.IH [OF s] rp show ?thesis
      by simp
  next
    case other
    show ?thesis
    proof (cases "operators t")
      case None
      with Cons.prems other have "shunt ts out (t # ops) = Inr (out', ops')"
        by (simp split: if_splits)
      from Cons.IH [OF this] other show ?thesis
        by simp
    next
      case (Some d)
      from pop_operators_split [of ops "precedence d" out] obtain popped where
        p: "ops = popped @ snd (pop_operators (precedence d) out ops)"
        "fst (pop_operators (precedence d) out ops) = out @ map Op popped"
        "[LPAREN] \<notin> set popped"
        by blast
      from Cons.prems Some other
      have s: "shunt ts (out @ map Op popped) (t # snd (pop_operators (precedence d) out ops)) =
          Inr (out', ops')"
        by (simp add: p(2) [symmetric] split: prod.splits)
      from p(1) have "waiting ops = waiting popped + waiting (snd (pop_operators (precedence d) out ops))"
        by (metis waiting_simps(3))
      with waiting_all [OF p(3)] Cons.IH [OF s] other show ?thesis
        by simp
    qed
  qed
qed

lemma toRPN_balance:
  assumes "toRPN expression = Inr rpn"
  shows "balance rpn = token_balance (match_tokens expression)"
proof -
  from assms obtain out ops where s: "shunt (match_tokens expression) [] [] = Inr (out, ops)"
    and r: "pop_remaining out ops = Inr rpn"
    by (auto simp: toRPN_def split: sum.splits)
  from r have "[LPAREN] \<notin> set ops" "rpn = out @ map Op ops"
    by (auto simp: pop_remaining_eq split: if_splits)
  with shunt_balance [OF s] waiting_all [of ops] show ?thesis
    by simp
qed

lemma calculate_balance:
  assumes "calculate s = Inr v"
  shows "token_balance (match_tokens (strip_whitespace s)) = 1"
proof -
  from assms obtain rpn where "toRPN (strip_whitespace s) = Inr rpn" "evaluateRPN rpn = Inr v"
    by (auto simp: calculate_def Let_def split: if_splits sum.splits)
  with toRPN_balance evaluateRPN_balance show ?thesis
    by metis
qed

lemma expr_tokens_balance: "well_formed e \<Longrightarrow> token_balance (expr_tokens e) = 1"
proof (induction e)
  case (Lit l)
  then show ?case
    by simp
next
  case (Paren e)
  then show ?case
    by (simp add: is_number_token_def is_digit_def)
next
  case (Bin l opr r)
  with binary_operator_entry [of opr] show ?case
    by simp
qed

text \<open>
  C10, as the code has it. A calculation succeeds only when the tokens hold exactly one
  number more than operators. So an operator in front of an infix expression, as in
  \<^verbatim>\<open>-5\<close>, never gives a result: unary operators are not supported, and \<^verbatim>\<open>-5\<close> fails with
  the invalid expression error.
\<close>

theorem leading_operator:
  "(calculate s = Inr v \<longrightarrow> token_balance (match_tokens (strip_whitespace s)) = 1)
   \<and> (is_binary_operator opr \<and> well_formed e \<and> strip_whitespace s = opr @ show_expr e \<longrightarrow>
        calculate s \<noteq> Inr v)
   \<and> calculate (js ''-5'') = Inl InvalidExpression"
proof -
  have 1: "token_balance (match_tokens (strip_whitespace s)) = 1" if "calculate s = Inr v"
    using that by (rule calculate_balance)
  have 2: "calculate s \<noteq> Inr v"
    if "is_binary_operator opr \<and> well_formed e \<and> strip_whitespace s = opr @ show_expr e"
  proof
    assume "calculate s = Inr v"
    then have b: "token_balance (match_tokens (strip_whitespace s)) = 1"
      by (rule calculate_balance)
    from that obtain c where c: "opr = [c]" "is_opchar c"
      by (auto simp: is_binary_operator_def is_opchar_def)
    from that have "match_tokens (show_expr e) = expr_tokens e"
      using match_tokens_expr [of e "[]"] by (simp add: starts_clean_def)
    with that c have "match_tokens (strip_whitespace s) = opr # expr_tokens e"
      by (simp add: match_tokens_symbol del: match_tokens.simps)
    with that binary_operator_entry [of opr] expr_tokens_balance [of e]
    have "token_balance (match_tokens (strip_whitespace s)) = 0"
      by simp
    with b show False
      by simp
  qed
  have 3: "calculate (js ''-5'') = Inl InvalidExpression"
    by (simp add: engine_eval string_eval number_eval)
  from 1 2 3 show ?thesis
    by blast
qed

theorem leading_operator_witness:
  "calculate (js '' - 5 / 0'') \<noteq> Inr (Fin 0 0)
   \<and> calculate (js '' - 5 / 0'') = Inl DivisionByZero
   \<and> token_balance (match_tokens (js ''-5/0'')) = 0"
  using leading_operator [of "js '' - 5 / 0''" "Fin 0 0" "js ''-''"
      "Bin (Lit (js ''5'')) (js ''/'') (Lit (js ''0''))"]
  by (simp add: is_binary_operator_def level_def engine_eval string_eval number_eval)

theorem leading_operator_counterexample:
  "hd (strip_whitespace (js ''-3(4)'')) = MINUS \<and> calculate (js ''-3(4)'') = Inr (Fin (- 1) 0)"
  by (simp add: engine_eval string_eval number_eval)

section \<open>The format of the result\<close>

lemma digit_string_digits: "list_all is_digit (digit_string n) \<and> digit_string n \<noteq> []"
proof (induction n rule: digit_string.induct)
  case (1 n)
  show ?case
  proof (cases "n < 10")
    case True
    then show ?thesis
      by (simp add: digit_string.simps [of n] is_digit_def)
  next
    case False
    with 1 have "list_all is_digit (digit_string (n div 10))"
      by simp
    moreover have "is_digit (48 + n mod 10)"
      by (simp add: is_digit_def)
    ultimately show ?thesis
      using False by (simp add: digit_string.simps [of n])
  qed
qed

lemma digits_value_snoc: "digits_value (ds @ [c]) = 10 * digits_value ds + (c - 48)"
  by (simp add: digits_value_def)

lemma digits_value_digit_string: "digits_value (digit_string n) = n"
proof (induction n rule: digit_string.induct)
  case (1 n)
  show ?case
  proof (cases "n < 10")
    case True
    then show ?thesis
      by (simp add: digit_string.simps [of n] digits_value_def)
  next
    case False
    with 1 have "digits_value (digit_string (n div 10)) = n div 10"
      by simp
    with False show ?thesis
      by (simp add: digit_string.simps [of n] digits_value_snoc)
  qed
qed

lemma digits_value_zeros: "digits_value (replicate k ZERO @ ds) = digits_value ds"
  by (induction k) (simp_all add: digits_value_def)

lemma parse_decimal_fixed:
  assumes "list_all is_digit ip" "list_all is_digit fp" "ip \<noteq> []"
  shows "parse_unsigned neg (ip @ DOT # fp) =
    number_value neg (digits_value (ip @ fp)) (10 ^ length fp) 0"
proof -
  from assms obtain c cs where ip: "ip = c # cs" and c: "is_digit c"
    by (cases ip) auto
  have "hd (js ''Infinity'') = 73"
    by (simp add: js_def)
  moreover from c have "c \<noteq> 73"
    by (auto simp: is_digit_def)
  ultimately have ne: "take 8 (ip @ DOT # fp) \<noteq> js ''Infinity''"
    unfolding ip by (metis append_Cons hd_take list.sel(1) zero_less_numeral)
  have tw: "takeWhile is_digit (ip @ DOT # fp) = ip"
    and dw: "dropWhile is_digit (ip @ DOT # fp) = DOT # fp"
    using assms(1) by (simp_all add: takeWhile_digits_point dropWhile_digits_point)
  have tf: "takeWhile is_digit fp = fp"
    using assms(2) by (rule takeWhile_all_digits)
  have "parse_unsigned neg (ip @ DOT # fp) = parse_decimal neg (ip @ DOT # fp)"
    using ne by (simp only: parse_unsigned_def if_False)
  also have "\<dots> = decimal_value neg ip fp"
    by (simp add: parse_decimal_def tw dw tf)
  also have "\<dots> = number_value neg (digits_value (ip @ fp)) (10 ^ length fp) 0"
    using assms(3) by (simp only: decimal_value_def simp_thms if_False)
  finally show ?thesis .
qed

lemma parse_fixed_point:
  assumes "f \<noteq> 0"
  shows "parse_unsigned neg (fixed_point n f) = number_value neg n (10 ^ f) 0"
    and "is_digit (hd (fixed_point n f))"
proof -
  define p where "p = replicate (f + 1 - length (digit_string n)) ZERO @ digit_string n"
  define ip where "ip = take (length p - f) p"
  define fp where "fp = drop (length p - f) p"
  have len: "f + 1 \<le> length p"
    by (simp add: p_def)
  have "list_all is_digit (replicate (f + 1 - length (digit_string n)) ZERO)"
    by (simp add: list_all_iff is_digit_def)
  with digit_string_digits [of n] have all: "list_all is_digit p"
    by (simp add: p_def)
  have p: "p = ip @ fp"
    by (simp add: ip_def fp_def)
  from all have d: "list_all is_digit ip" "list_all is_digit fp"
    unfolding p by simp_all
  from len have l: "length fp = f" "ip \<noteq> []"
    by (auto simp: fp_def ip_def)
  have v: "digits_value (ip @ fp) = n"
    unfolding p [symmetric] by (simp add: p_def digits_value_zeros digits_value_digit_string)
  have fx: "fixed_point n f = ip @ DOT # fp"
    unfolding fixed_point_def insert_point_def p_def [symmetric] ip_def fp_def
    using assms by simp
  show "parse_unsigned neg (fixed_point n f) = number_value neg n (10 ^ f) 0"
    unfolding fx using parse_decimal_fixed [OF d l(2), of neg] by (simp add: v l(1))
  from d(1) l(2) show "is_digit (hd (fixed_point n f))"
    unfolding fx by (cases ip) simp_all
qed

lemma parseFloat_toFixed:
  assumes "f \<noteq> 0"
  shows "parseFloat (toFixed (Fin m e) f) =
    number_value (m < 0) (scaled_round (nat \<bar>m\<bar>) e f) (10 ^ f) 0"
proof (cases "m < 0")
  case True
  then show ?thesis
    by (simp add: parseFloat_def parse_fixed_point(1) [OF assms])
next
  case False
  let ?s = "fixed_point (scaled_round (nat \<bar>m\<bar>) e f) f"
  from parse_fixed_point(2) [OF assms, of "scaled_round (nat \<bar>m\<bar>) e f"]
  have "hd ?s \<noteq> MINUS" "hd ?s \<noteq> PLUS"
    by (auto simp: is_digit_def)
  with False show ?thesis
    by (simp add: parseFloat_def parse_fixed_point(1) [OF assms])
qed

lemma scaled_round_nearest:
  assumes "e < 0"
  shows "\<bar>2 * (int (scaled_round a e f) * 2 ^ nat (- e)) - 2 * (int a * 10 ^ f)\<bar> \<le> 2 ^ nat (- e)"
proof -
  define h :: nat where "h = 2 ^ nat (- e)"
  define x :: nat where "x = 2 * a * 10 ^ f"
  define n where "n = (x + h) div (2 * h)"
  define r where "r = (x + h) mod (2 * h)"
  define P where "P = int n * int h"
  have h: "0 < h"
    by (simp add: h_def)
  have n: "scaled_round a e f = n"
    using assms by (simp add: scaled_round_def n_def x_def h_def)
  have "x + h = n * (2 * h) + r"
    unfolding n_def r_def by (rule div_mult_mod_eq [symmetric])
  then have "int (x + h) = int (n * (2 * h) + r)"
    by (rule arg_cong)
  then have eq: "int x + int h = 2 * P + int r"
    by (simp add: P_def)
  have "r < 2 * h"
    unfolding r_def using h by simp
  then have "int r < 2 * int h"
    by linarith
  with eq have "\<bar>2 * P - int x\<bar> \<le> int h"
    by linarith
  moreover have "int x = 2 * (int a * 10 ^ f)" "int h = 2 ^ nat (- e)"
    by (simp_all add: x_def h_def)
  ultimately show ?thesis
    unfolding n P_def by simp
qed

text \<open>
  C2. A successful evaluation returns the one value left on the stack unchanged when it
  is an integer, and otherwise what \<^verbatim>\<open>parseFloat\<close> reads from its \<^verbatim>\<open>toFixed(8)\<close> string. For a
  finite number \<open>m * 2 ^ e\<close> that is the Number value of \<open>n / 10 ^ 8\<close> with the sign of \<open>m\<close>,
  where \<open>n\<close> is the integer nearest to the absolute value times \<open>10 ^ 8\<close>: the number
  rounded to eight decimals. \<open>NaN\<close> and the infinities are returned as they are. So
  \<^verbatim>\<open>0.1+0.2\<close>, whose sum is the number \<^verbatim>\<open>0.30000000000000004\<close>, returns the number \<^verbatim>\<open>0.3\<close>.
\<close>

theorem result_normalization:
  "(evaluateRPN rpn = Inr v \<longrightarrow>
      (\<exists>r. eval_loop rpn [] = Inr [r] \<and> (isInteger r \<longrightarrow> v = r)
         \<and> (\<not> isInteger r \<longrightarrow> v = parseFloat (toFixed r 8))))
   \<and> parseFloat (toFixed (Fin m e) 8) =
        number_value (m < 0) (scaled_round (nat \<bar>m\<bar>) e 8) (10 ^ 8) 0
   \<and> (e < 0 \<longrightarrow>
        \<bar>2 * (int (scaled_round (nat \<bar>m\<bar>) e 8) * 2 ^ nat (- e)) - 2 * (\<bar>m\<bar> * 10 ^ 8)\<bar>
          \<le> 2 ^ nat (- e))
   \<and> parseFloat (toFixed NaN 8) = NaN
   \<and> parseFloat (toFixed PosInf 8) = PosInf
   \<and> parseFloat (toFixed NegInf 8) = NegInf
   \<and> calculate (js ''0.1+0.2'') = Inr (parseFloat (js ''0.3''))
   \<and> eval_loop [Num (parseFloat (js ''0.1'')), Num (parseFloat (js ''0.2'')), Op [PLUS]] [] =
        Inr [parseFloat (js ''0.30000000000000004'')]
   \<and> parseFloat (js ''0.3'') \<noteq> parseFloat (js ''0.30000000000000004'')"
proof -
  have 1: "\<exists>r. eval_loop rpn [] = Inr [r] \<and> (isInteger r \<longrightarrow> v = r)
         \<and> (\<not> isInteger r \<longrightarrow> v = parseFloat (toFixed r 8))"
    if "evaluateRPN rpn = Inr v"
  proof -
    from that obtain st where st: "eval_loop rpn [] = Inr st" "length st = 1"
      and v: "v = format_result (st ! 0)"
      by (auto simp: evaluateRPN_def split: sum.splits if_splits)
    from st(2) obtain r where "st = [r]"
      by (cases st) auto
    with st v show ?thesis
      by (auto simp: format_result_def)
  qed
  have 2: "parseFloat (toFixed (Fin m e) 8) =
      number_value (m < 0) (scaled_round (nat \<bar>m\<bar>) e 8) (10 ^ 8) 0"
    by (rule parseFloat_toFixed) simp
  have 3: "\<bar>2 * (int (scaled_round (nat \<bar>m\<bar>) e 8) * 2 ^ nat (- e)) - 2 * (\<bar>m\<bar> * 10 ^ 8)\<bar>
      \<le> 2 ^ nat (- e)" if "e < 0"
    using scaled_round_nearest [OF that, of "nat \<bar>m\<bar>" 8] by simp
  have 4: "parseFloat (toFixed NaN 8) = NaN" "parseFloat (toFixed PosInf 8) = PosInf"
    "parseFloat (toFixed NegInf 8) = NegInf"
    by (simp_all add: string_eval)
  have a: "parseFloat (js ''0.1'') = Fin 3602879701896397 (- 55)"
    and b: "parseFloat (js ''0.2'') = Fin 3602879701896397 (- 54)"
    and c: "parseFloat (js ''0.3'') = Fin 5404319552844595 (- 54)"
    and d: "parseFloat (js ''0.30000000000000004'') = Fin 1351079888211149 (- 52)"
    by (simp_all add: string_eval number_eval)
  have 5: "calculate (js ''0.1+0.2'') = Inr (parseFloat (js ''0.3''))"
    unfolding c by (simp add: engine_eval string_eval number_eval)
  have 6: "eval_loop [Num (parseFloat (js ''0.1'')), Num (parseFloat (js ''0.2'')), Op [PLUS]] [] =
      Inr [parseFloat (js ''0.30000000000000004'')]"
    unfolding a b d by (simp add: operators_def number_eval)
  have 7: "parseFloat (js ''0.3'') \<noteq> parseFloat (js ''0.30000000000000004'')"
    unfolding c d by simp
  from 1 2 3 4 5 6 7 show ?thesis
    by blast
qed

theorem result_normalization_witness:
  "evaluateRPN [Num (Fin 1 0), Num (Fin 3 0), Op [SLASH]] = Inr (Fin 3002399721556333 (- 53))
   \<and> eval_loop [Num (Fin 1 0), Num (Fin 3 0), Op [SLASH]] [] = Inr [Fin 6004799503160661 (- 54)]
   \<and> \<not> isInteger (Fin 6004799503160661 (- 54))
   \<and> parseFloat (toFixed (Fin 6004799503160661 (- 54)) 8) = number_value False 33333333 (10 ^ 8) 0
   \<and> \<bar>2 * (33333333 * 2 ^ 54) - 2 * (6004799503160661 * 10 ^ 8)\<bar> \<le> (2::int) ^ 54"
proof -
  have l: "eval_loop [Num (Fin 1 0), Num (Fin 3 0), Op [SLASH]] [] = Inr [Fin 6004799503160661 (- 54)]"
    by (simp add: operators_def number_eval)
  have i: "\<not> isInteger (Fin 6004799503160661 (- 54))"
    by simp
  have v: "evaluateRPN [Num (Fin 1 0), Num (Fin 3 0), Op [SLASH]] = Inr (Fin 3002399721556333 (- 53))"
    unfolding evaluateRPN_def l by (simp add: format_result_def string_eval number_eval)
  have s: "scaled_round (nat \<bar>6004799503160661\<bar>) (- 54) 8 = 33333333"
    by (simp add: scaled_round_def)
  from result_normalization [of "[Num (Fin 1 0), Num (Fin 3 0), Op [SLASH]]"
      "Fin 3002399721556333 (- 53)" 6004799503160661 "- 54"] l i v
  show ?thesis
    unfolding s by simp
qed

end
